theory Spec2Isabelle
  imports Complex_Main
begin

text \<open>
  A shallow embedding of the server of the chatbot: the normalisation of scraped items,
  the ingestion of content into the graph store and the query on it, the chat endpoint,
  the crawler of \<^verbatim>\<open>scrapeWebsite\<close> and the upload to the search index. What the
  database, the search index, the language model and the browser answer is a parameter
  of the functions below; what the server does with the answers is defined.
\<close>

section \<open>JavaScript values and strings\<close>

text \<open>
  A JavaScript string is modelled as a \<^typ>\<open>string\<close>, one \<^typ>\<open>char\<close> per code unit, so
  that \<open>length\<close> is \<^verbatim>\<open>.length\<close> and \<open>take n\<close> is \<^verbatim>\<open>.substring(0, n)\<close>. The few
  places where the server tests what kind of value a field holds
  (\<^verbatim>\<open>item.text && typeof item.text === 'string'\<close>, \<^verbatim>\<open>item.type || 'unknown'\<close>) read a
  \<open>jsval\<close>.
\<close>

datatype jsval = JUndefined | JNull | JBool bool | JStr string

fun truthy :: "jsval \<Rightarrow> bool" where
  "truthy JUndefined = False"
| "truthy JNull = False"
| "truthy (JBool b) = b"
| "truthy (JStr s) = (s \<noteq> [])"

fun typeof_string :: "jsval \<Rightarrow> bool" where
  "typeof_string (JStr s) = True"
| "typeof_string v = False"

text \<open>The string held by a value; only read behind a \<open>typeof_string\<close> test.\<close>

fun str_of :: "jsval \<Rightarrow> string" where
  "str_of (JStr s) = s"
| "str_of v = []"

definition startsWith :: "string \<Rightarrow> string \<Rightarrow> bool" where
  "startsWith s p = (take (length p) s = p)"

text \<open>\<^verbatim>\<open>s.includes(t)\<close>, which is also Cypher's \<^verbatim>\<open>s CONTAINS t\<close>.\<close>

fun includes_str :: "string \<Rightarrow> string \<Rightarrow> bool" where
  "includes_str [] t = (t = [])"
| "includes_str (c # cs) t = (startsWith (c # cs) t \<or> includes_str cs t)"

text \<open>The character class \<^verbatim>\<open>[a-zA-Z0-9]\<close>.\<close>

definition alnum :: "char \<Rightarrow> bool" where
  "alnum c = (let n = (of_char c :: nat) in
     (97 \<le> n \<and> n \<le> 122) \<or> (65 \<le> n \<and> n \<le> 90) \<or> (48 \<le> n \<and> n \<le> 57))"

text \<open>\<^verbatim>\<open>s.replace(/[^a-zA-Z0-9]/g, '_')\<close>\<close>

definition replace_non_alnum :: "string \<Rightarrow> string" where
  "replace_non_alnum s = map (\<lambda>c. if alnum c then c else CHR ''_'') s"

section \<open>Content items and their normalisation\<close>

text \<open>
  The crawler's \<^verbatim>\<open>scrapedData\<close> holds two shapes of object: \<^verbatim>\<open>{url, html}\<close>, pushed once
  per loaded page, and \<^verbatim>\<open>{type, text, url}\<close>, one per extracted element. A field an
  object does not have reads as \<open>JUndefined\<close>. An element of the list handed to
  \<^verbatim>\<open>ingestContent\<close> that is \<^verbatim>\<open>null\<close> or \<^verbatim>\<open>undefined\<close> is \<open>None\<close>.
\<close>

record content_item =
  item_type :: jsval
  item_text :: jsval
  item_url :: string
  item_html :: jsval

text \<open>A member of \<^verbatim>\<open>validContent\<close>: the item (its text and type now known to be strings)
  spread into a new object together with the computed \<^verbatim>\<open>id\<close>.\<close>

record valid_item =
  c_id :: string
  c_text :: string
  c_type :: string
  c_url :: string

definition graph_types :: "string list" where
  "graph_types = [''h1'', ''h2'', ''h3'', ''h4'', ''p'', ''li'']"

definition heading_types :: "string list" where
  "heading_types = [''h1'', ''h2'', ''h3'', ''h4'']"

text \<open>The predicate of \<^verbatim>\<open>content.filter(...)\<close> in \<^verbatim>\<open>ingestContent\<close>.\<close>

definition valid_pred :: "content_item option \<Rightarrow> bool" where
  "valid_pred it = (case it of
      None \<Rightarrow> False
    | Some i \<Rightarrow> truthy (item_text i) \<and> typeof_string (item_text i) \<and>
        10 < length (str_of (item_text i)) \<and> item_type i \<in> set (map JStr graph_types))"

text \<open>\<^verbatim>\<open>`${item.url}-${item.text.substring(0, 50).replace(/[^a-zA-Z0-9]/g, '_')}`\<close>\<close>

definition make_id :: "string \<Rightarrow> string \<Rightarrow> string" where
  "make_id u t = u @ ''-'' @ replace_non_alnum (take 50 t)"

definition with_id :: "content_item option \<Rightarrow> valid_item" where
  "with_id it = (let i = the it in
     \<lparr>c_id = make_id (item_url i) (str_of (item_text i)),
      c_text = str_of (item_text i),
      c_type = str_of (item_type i),
      c_url = item_url i\<rparr>)"

definition validContent :: "content_item option list \<Rightarrow> valid_item list" where
  "validContent content = map with_id (filter valid_pred content)"

text \<open>
  The normaliser in the specification's words: an item is kept when its text is a
  non-empty string longer than 10 characters and its type is graph-eligible, and the
  record made of it carries the identifier derived from the url and the first 50
  characters of the text.
\<close>

definition spec_eligible :: "content_item option \<Rightarrow> bool" where
  "spec_eligible it = (case it of
      None \<Rightarrow> False
    | Some i \<Rightarrow>
        (case item_text i of
           JStr s \<Rightarrow> s \<noteq> [] \<and> 10 < length s \<and>
             (case item_type i of JStr t \<Rightarrow> t \<in> {''h1'', ''h2'', ''h3'', ''h4'', ''p'', ''li''} | _ \<Rightarrow> False)
         | _ \<Rightarrow> False))"

definition spec_record :: "string \<Rightarrow> string \<Rightarrow> string \<Rightarrow> valid_item" where
  "spec_record t s u =
     \<lparr>c_id = u @ ''-'' @ map (\<lambda>c. if alnum c then c else CHR ''_'') (take 50 s),
      c_text = s, c_type = t, c_url = u\<rparr>"

definition spec_normalize1 :: "content_item option \<Rightarrow> valid_item option" where
  "spec_normalize1 it = (case it of
      None \<Rightarrow> None
    | Some i \<Rightarrow>
        (case (item_type i, item_text i) of
           (JStr t, JStr s) \<Rightarrow> if spec_eligible it then Some (spec_record t s (item_url i)) else None
         | _ \<Rightarrow> None))"

lemma valid_pred_eligible: "valid_pred it = spec_eligible it"
  by (auto simp: valid_pred_def spec_eligible_def graph_types_def
      split: option.splits jsval.splits)

lemma with_id_spec:
  "spec_eligible it \<Longrightarrow> spec_normalize1 it = Some (with_id it)"
  by (auto simp: spec_eligible_def spec_normalize1_def with_id_def Let_def spec_record_def make_id_def
      replace_non_alnum_def split: option.splits jsval.splits)

lemma not_eligible_spec: "\<not> spec_eligible it \<Longrightarrow> spec_normalize1 it = None"
  by (auto simp: spec_normalize1_def split: option.splits jsval.splits)

lemma validContent_map_filter: "validContent content = List.map_filter spec_normalize1 content"
proof (induction content)
  case Nil
  show ?case by (simp add: validContent_def)
next
  case (Cons it content)
  show ?case
  proof (cases "spec_eligible it")
    case True
    with Cons show ?thesis
      by (simp add: validContent_def valid_pred_eligible with_id_spec)
  next
    case False
    with Cons show ?thesis
      by (simp add: validContent_def valid_pred_eligible not_eligible_spec)
  qed
qed

lemma validContent_text_length: "r \<in> set (validContent content) \<Longrightarrow> 10 < length (c_text r)"
  by (auto simp: validContent_def valid_pred_def with_id_def Let_def split: option.splits)

lemma validContent_id: "r \<in> set (validContent content) \<Longrightarrow> c_id r = make_id (c_url r) (c_text r)"
  by (auto simp: validContent_def with_id_def Let_def)

text \<open>
  Claim C5. Normalisation is a deterministic filter: the records produced are, in order,
  exactly those of the items whose text is a non-empty string longer than 10 characters
  and whose type is one of h1, h2, h3, h4, p, li; each record's text is longer than 10
  characters and its id is the url, a hyphen, and the first 50 characters of the text
  with every non-alphanumeric character replaced by an underscore. The id is a function
  of url and text alone.
\<close>

theorem normalization_deterministic_filter:
  "validContent content = List.map_filter spec_normalize1 content \<and>
   length (validContent content) = length (filter spec_eligible content) \<and>
   (\<forall>r \<in> set (validContent content).
      10 < length (c_text r) \<and> c_type r \<in> set graph_types \<and>
      c_id r = c_url r @ ''-'' @ replace_non_alnum (take 50 (c_text r)))"
proof (intro conjI ballI)
  show "validContent content = List.map_filter spec_normalize1 content"
    by (rule validContent_map_filter)
  show "length (validContent content) = length (filter spec_eligible content)"
    by (simp add: validContent_def valid_pred_eligible [abs_def])
next
  fix r assume r: "r \<in> set (validContent content)"
  show "10 < length (c_text r)" using r by (rule validContent_text_length)
  show "c_type r \<in> set graph_types"
    using r by (auto simp: validContent_def valid_pred_def with_id_def Let_def split: option.splits)
  show "c_id r = c_url r @ ''-'' @ replace_non_alnum (take 50 (c_text r))"
    using validContent_id [OF r] by (simp add: make_id_def)
qed

text \<open>Items of the kinds the crawler collects, and a \<^verbatim>\<open>null\<close> among them.\<close>

definition page_record :: content_item where
  "page_record = \<lparr>item_type = JUndefined, item_text = JUndefined,
     item_url = ''https://www.madewithnestle.ca/cocoa'', item_html = JStr ''<html></html>''\<rparr>"

definition short_item :: content_item where
  "short_item = \<lparr>item_type = JStr ''h2'', item_text = JStr ''Fun Facts'',
     item_url = ''https://www.madewithnestle.ca/cocoa'', item_html = JUndefined\<rparr>"

definition span_item :: content_item where
  "span_item = \<lparr>item_type = JStr ''span'', item_text = JStr ''Unwrap the magic of cocoa'',
     item_url = ''https://www.madewithnestle.ca/cocoa'', item_html = JUndefined\<rparr>"

definition faq_item :: content_item where
  "faq_item = \<lparr>item_type = JStr ''h3'', item_text = JStr ''Is it gluten-free?'',
     item_url = ''https://www.madewithnestle.ca/faq'', item_html = JUndefined\<rparr>"

theorem normalization_deterministic_filter_witness:
  "validContent [Some page_record, None, Some short_item, Some span_item, Some faq_item] =
     [\<lparr>c_id = ''https://www.madewithnestle.ca/faq-Is_it_gluten_free_'',
       c_text = ''Is it gluten-free?'', c_type = ''h3'', c_url = ''https://www.madewithnestle.ca/faq''\<rparr>]"
proof -
  let ?content = "[Some page_record, None, Some short_item, Some span_item, Some faq_item]"
  from normalization_deterministic_filter [of ?content]
  have a: "validContent ?content = List.map_filter spec_normalize1 ?content"
    by (rule conjunct1)
  have b: "List.map_filter spec_normalize1 ?content =
     [\<lparr>c_id = ''https://www.madewithnestle.ca/faq-Is_it_gluten_free_'',
       c_text = ''Is it gluten-free?'', c_type = ''h3'', c_url = ''https://www.madewithnestle.ca/faq''\<rparr>]"
    by code_simp
  from a b show ?thesis by (rule trans)
qed

section \<open>The graph store and the two Cypher statements of ingestion\<close>

text \<open>
  The store holds \<^verbatim>\<open>Content\<close> nodes and directed relationships. The schema's constraint
  makes \<^verbatim>\<open>id\<close> the key of a node, so a relationship names its end nodes by their
  \<^verbatim>\<open>id\<close> property and \<^verbatim>\<open>id(other) <> id(n)\<close> compares those.
\<close>

record node =
  n_id :: string
  n_text :: string
  n_type :: string
  n_url :: string

record edge =
  e_src :: string
  e_dst :: string
  e_type :: string
  e_context :: "string option"

record graph =
  nodes :: "node list"
  edges :: "edge list"

definition empty_graph :: graph where
  "empty_graph = \<lparr>nodes = [], edges = []\<rparr>"

definition node_of :: "valid_item \<Rightarrow> node" where
  "node_of c = \<lparr>n_id = c_id c, n_text = c_text c, n_type = c_type c, n_url = c_url c\<rparr>"

text \<open>
  \<^verbatim>\<open>MERGE (n:Content {id: item.id}) SET n.text = item.text, n.type = item.type, n.url = item.url\<close>
  for one row: every node with that id gets the item's properties; when there is none,
  one is created.
\<close>

definition merge_node :: "valid_item \<Rightarrow> node list \<Rightarrow> node list" where
  "merge_node c ns =
     (if c_id c \<in> set (map n_id ns)
      then map (\<lambda>n. if n_id n = c_id c
                     then n\<lparr>n_text := c_text c, n_type := c_type c, n_url := c_url c\<rparr> else n) ns
      else ns @ [node_of c])"

text \<open>The \<^verbatim>\<open>WHERE\<close> clause of the relationship statement, \<open>n\<close> the heading's node.\<close>

definition section_match :: "node \<Rightarrow> node \<Rightarrow> bool" where
  "section_match n other =
     (n_url other = n_url n \<and>
      n_type other \<in> set [''p'', ''li''] \<and>
      includes_str (n_text other) (n_text n) \<and>
      5 < length (n_text n) \<and>
      n_id other \<noteq> n_id n)"

definition related_edge :: "node \<Rightarrow> node \<Rightarrow> edge" where
  "related_edge n other =
     \<lparr>e_src = n_id n, e_dst = n_id other, e_type = ''RELATED_TO'', e_context = Some ''section''\<rparr>"

text \<open>The rows that reach the final \<^verbatim>\<open>MERGE\<close>: \<^verbatim>\<open>UNWIND\<close>, then the two \<^verbatim>\<open>MATCH\<close>es.\<close>

definition link_rows :: "valid_item list \<Rightarrow> node list \<Rightarrow> (node \<times> node) list" where
  "link_rows batch ns =
     [(n, other). item \<leftarrow> batch, n \<leftarrow> ns, n_id n = c_id item, other \<leftarrow> ns, section_match n other]"

definition merge_edge :: "edge \<Rightarrow> edge list \<Rightarrow> edge list" where
  "merge_edge e es = (if e \<in> set es then es else es @ [e])"

datatype query = MergeNodes "valid_item list" | LinkHeadings "valid_item list"

fun exec :: "query \<Rightarrow> graph \<Rightarrow> graph" where
  "exec (MergeNodes batch) g = g\<lparr>nodes := fold merge_node batch (nodes g)\<rparr>"
| "exec (LinkHeadings batch) g =
     g\<lparr>edges := fold merge_edge (map (\<lambda>(n, other). related_edge n other) (link_rows batch (nodes g)))
                  (edges g)\<rparr>"

section \<open>Graph ingestion\<close>

text \<open>
  A session records the statements run on it. \<open>fails k\<close> says that the \<open>k\<close>-th statement
  run on the session (counted from 0) raises; a statement that raises writes nothing.
  A raise is the \<open>Inl\<close> of the result, carrying the session as it then is.
\<close>

record session =
  store :: graph
  ran :: "query list"

definition session_run :: "(nat \<Rightarrow> bool) \<Rightarrow> query \<Rightarrow> session \<Rightarrow> session + session" where
  "session_run fails q s =
     (if fails (length (ran s)) then Inl (s\<lparr>ran := ran s @ [q]\<rparr>)
      else Inr \<lparr>store = exec q (store s), ran = ran s @ [q]\<rparr>)"

definition nodeBatchSize :: nat where
  "nodeBatchSize = 100"

definition relBatchSize :: nat where
  "relBatchSize = 50"

text \<open>\<^verbatim>\<open>xs.slice(i, j)\<close> for \<open>i \<le> j\<close>.\<close>

definition slice :: "nat \<Rightarrow> nat \<Rightarrow> 'a list \<Rightarrow> 'a list" where
  "slice i j xs = take (j - i) (drop i xs)"

text \<open>\<^verbatim>\<open>for (let i = 0; i < validContent.length; i += nodeBatchSize) { ... }\<close>\<close>

function node_loop :: "(nat \<Rightarrow> bool) \<Rightarrow> valid_item list \<Rightarrow> nat \<Rightarrow> session \<Rightarrow> session + session" where
  "node_loop fails vc i s =
     (if i < length vc
      then (case session_run fails (MergeNodes (slice i (i + nodeBatchSize) vc)) s of
              Inl s' \<Rightarrow> Inl s'
            | Inr s' \<Rightarrow> node_loop fails vc (i + nodeBatchSize) s')
      else Inr s)"
  by pat_completeness auto
termination
  by (relation "measure (\<lambda>(fails, vc, i, s). length vc - i)") (auto simp: nodeBatchSize_def)

text \<open>\<^verbatim>\<open>for (let i = 0; i < headingContent.length; i += relBatchSize) { ... }\<close>\<close>

function rel_loop :: "(nat \<Rightarrow> bool) \<Rightarrow> valid_item list \<Rightarrow> nat \<Rightarrow> session \<Rightarrow> session + session" where
  "rel_loop fails hc i s =
     (if i < length hc
      then (case session_run fails (LinkHeadings (slice i (i + relBatchSize) hc)) s of
              Inl s' \<Rightarrow> Inl s'
            | Inr s' \<Rightarrow> rel_loop fails hc (i + relBatchSize) s')
      else Inr s)"
  by pat_completeness auto
termination
  by (relation "measure (\<lambda>(fails, hc, i, s). length hc - i)") (auto simp: relBatchSize_def)

datatype log_line = Processing nat | ErrorIngesting

record ingest_outcome =
  final :: session
  console :: "log_line list"
  session_closed :: bool

definition headingContent :: "valid_item list \<Rightarrow> valid_item list" where
  "headingContent vc = filter (\<lambda>item. c_type item \<in> set heading_types) vc"

text \<open>
  \<^verbatim>\<open>ingestContent\<close>: one \<^verbatim>\<open>try\<close> around both loops, a \<^verbatim>\<open>catch\<close> that logs, a \<^verbatim>\<open>finally\<close>
  that closes the session. Nothing is rethrown.
\<close>

definition ingestContent :: "(nat \<Rightarrow> bool) \<Rightarrow> content_item option list \<Rightarrow> graph \<Rightarrow> ingest_outcome" where
  "ingestContent fails content g =
     (let vc = validContent content;
          s0 = \<lparr>store = g, ran = []\<rparr>
      in case (case node_loop fails vc 0 s0 of
                 Inl s \<Rightarrow> Inl s
               | Inr s1 \<Rightarrow> rel_loop fails (headingContent vc) 0 s1) of
           Inl s \<Rightarrow> \<lparr>final = s, console = [Processing (length vc), ErrorIngesting], session_closed = True\<rparr>
         | Inr s \<Rightarrow> \<lparr>final = s, console = [Processing (length vc)], session_closed = True\<rparr>)"



section \<open>The loops as a list of statements\<close>

text \<open>
  For the proofs the two loops are read as one list of statements, sent in order until
  one raises: \<open>plan\<close> is that list, \<open>batches_from n i xs\<close> the slices a loop with step
  \<open>n\<close> takes from index \<open>i\<close> on.
\<close>

declare node_loop.simps [simp del]
declare rel_loop.simps [simp del]

fun run_queries :: "(nat \<Rightarrow> bool) \<Rightarrow> query list \<Rightarrow> session \<Rightarrow> session + session" where
  "run_queries fails [] s = Inr s"
| "run_queries fails (q # qs) s =
     (case session_run fails q s of Inl s' \<Rightarrow> Inl s' | Inr s' \<Rightarrow> run_queries fails qs s')"

function batches_from :: "nat \<Rightarrow> nat \<Rightarrow> 'a list \<Rightarrow> 'a list list" where
  "batches_from n i xs =
     (if 0 < n \<and> i < length xs then slice i (i + n) xs # batches_from n (i + n) xs else [])"
  by pat_completeness auto
termination
  by (relation "measure (\<lambda>(n, i, xs). length xs - i)") auto

declare batches_from.simps [simp del]

definition plan :: "valid_item list \<Rightarrow> query list" where
  "plan vc = map MergeNodes (batches_from nodeBatchSize 0 vc) @
             map LinkHeadings (batches_from relBatchSize 0 (headingContent vc))"

lemma node_loop_run:
  "node_loop fails vc i s = run_queries fails (map MergeNodes (batches_from nodeBatchSize i vc)) s"
proof (induction fails vc i s rule: node_loop.induct)
  case (1 fails vc i s)
  show ?case
  proof (cases "i < length vc")
    case True
    then have b: "batches_from nodeBatchSize i vc =
        slice i (i + nodeBatchSize) vc # batches_from nodeBatchSize (i + nodeBatchSize) vc"
      by (subst batches_from.simps) (simp add: nodeBatchSize_def)
    show ?thesis
      using True 1 by (subst node_loop.simps) (simp add: b split: sum.splits)
  next
    case False
    then show ?thesis
      by (subst node_loop.simps, subst batches_from.simps) simp
  qed
qed

lemma rel_loop_run:
  "rel_loop fails hc i s = run_queries fails (map LinkHeadings (batches_from relBatchSize i hc)) s"
proof (induction fails hc i s rule: rel_loop.induct)
  case (1 fails hc i s)
  show ?case
  proof (cases "i < length hc")
    case True
    then have b: "batches_from relBatchSize i hc =
        slice i (i + relBatchSize) hc # batches_from relBatchSize (i + relBatchSize) hc"
      by (subst batches_from.simps) (simp add: relBatchSize_def)
    show ?thesis
      using True 1 by (subst rel_loop.simps) (simp add: b split: sum.splits)
  next
    case False
    then show ?thesis
      by (subst rel_loop.simps, subst batches_from.simps) simp
  qed
qed

lemma run_queries_append:
  "run_queries fails (qs @ rs) s =
     (case run_queries fails qs s of Inl s' \<Rightarrow> Inl s' | Inr s' \<Rightarrow> run_queries fails rs s')"
  by (induction qs arbitrary: s) (auto split: sum.splits)

lemma phases_run:
  "(case node_loop fails vc 0 s of Inl s' \<Rightarrow> Inl s' | Inr s1 \<Rightarrow> rel_loop fails (headingContent vc) 0 s1)
     = run_queries fails (plan vc) s"
  by (simp add: plan_def run_queries_append node_loop_run rel_loop_run split: sum.splits)

lemma run_queries_first_failure:
  "k < length qs \<Longrightarrow> fails (length (ran s) + k) \<Longrightarrow> \<forall>j<k. \<not> fails (length (ran s) + j) \<Longrightarrow>
   run_queries fails qs s = Inl \<lparr>store = fold exec (take k qs) (store s), ran = ran s @ take (Suc k) qs\<rparr>"
proof (induction qs arbitrary: s k)
  case Nil
  then show ?case by simp
next
  case (Cons q qs)
  show ?case
  proof (cases k)
    case 0
    with Cons.prems show ?thesis by (simp add: session_run_def)
  next
    case (Suc k')
    let ?s' = "\<lparr>store = exec q (store s), ran = ran s @ [q]\<rparr>"
    from Cons.prems Suc have nf: "\<not> fails (length (ran s))" by force
    have "run_queries fails qs ?s' =
        Inl \<lparr>store = fold exec (take k' qs) (store ?s'), ran = ran ?s' @ take (Suc k') qs\<rparr>"
    proof (rule Cons.IH)
      show "k' < length qs" using Cons.prems Suc by simp
      show "fails (length (ran ?s') + k')" using Cons.prems Suc by simp
      show "\<forall>j<k'. \<not> fails (length (ran ?s') + j)"
      proof (intro allI impI)
        fix j assume "j < k'"
        then have "Suc j < k" using Suc by simp
        with Cons.prems have "\<not> fails (length (ran s) + Suc j)" by blast
        then show "\<not> fails (length (ran ?s') + j)" by simp
      qed
    qed
    with nf Suc show ?thesis by (simp add: session_run_def)
  qed
qed

lemma run_queries_no_failure:
  "\<forall>j<length qs. \<not> fails (length (ran s) + j) \<Longrightarrow>
   run_queries fails qs s = Inr \<lparr>store = fold exec qs (store s), ran = ran s @ qs\<rparr>"
proof (induction qs arbitrary: s)
  case Nil
  then show ?case by simp
next
  case (Cons q qs)
  let ?s' = "\<lparr>store = exec q (store s), ran = ran s @ [q]\<rparr>"
  from Cons.prems have nf: "\<not> fails (length (ran s))" by force
  have "run_queries fails qs ?s' = Inr \<lparr>store = fold exec qs (store ?s'), ran = ran ?s' @ qs\<rparr>"
  proof (rule Cons.IH, intro allI impI)
    fix j assume "j < length qs"
    then have "Suc j < length (q # qs)" by simp
    with Cons.prems have "\<not> fails (length (ran s) + Suc j)" by blast
    then show "\<not> fails (length (ran ?s') + j)" by simp
  qed
  with nf show ?case by (simp add: session_run_def)
qed


lemma ingestContent_run:
  "ingestContent fails content g =
     (case run_queries fails (plan (validContent content)) \<lparr>store = g, ran = []\<rparr> of
        Inl s \<Rightarrow> \<lparr>final = s, console = [Processing (length (validContent content)), ErrorIngesting],
                  session_closed = True\<rparr>
      | Inr s \<Rightarrow> \<lparr>final = s, console = [Processing (length (validContent content))],
                  session_closed = True\<rparr>)"
  by (simp add: ingestContent_def Let_def phases_run)

lemma ingest_first_failure:
  assumes "k < length (plan (validContent content))" and "fails k" and "\<forall>j<k. \<not> fails j"
  shows "ingestContent fails content g =
     \<lparr>final = \<lparr>store = fold exec (take k (plan (validContent content))) g,
               ran = take (Suc k) (plan (validContent content))\<rparr>,
      console = [Processing (length (validContent content)), ErrorIngesting],
      session_closed = True\<rparr>"
proof -
  let ?s0 = "\<lparr>store = g, ran = []\<rparr>"
  have "run_queries fails (plan (validContent content)) ?s0 =
      Inl \<lparr>store = fold exec (take k (plan (validContent content))) (store ?s0),
           ran = ran ?s0 @ take (Suc k) (plan (validContent content))\<rparr>"
    using assms by (intro run_queries_first_failure) simp_all
  then show ?thesis by (simp add: ingestContent_run)
qed

lemma ingest_no_failure:
  assumes "\<forall>j<length (plan (validContent content)). \<not> fails j"
  shows "ingestContent fails content g =
     \<lparr>final = \<lparr>store = fold exec (plan (validContent content)) g,
               ran = plan (validContent content)\<rparr>,
      console = [Processing (length (validContent content))],
      session_closed = True\<rparr>"
proof -
  let ?s0 = "\<lparr>store = g, ran = []\<rparr>"
  have "run_queries fails (plan (validContent content)) ?s0 =
      Inr \<lparr>store = fold exec (plan (validContent content)) (store ?s0),
           ran = ran ?s0 @ plan (validContent content)\<rparr>"
    using assms by (intro run_queries_no_failure) simp_all
  then show ?thesis by (simp add: ingestContent_run)
qed

text \<open>Two behaviours of the database, and two items of one page.\<close>

definition first_write_fails :: "nat \<Rightarrow> bool" where
  "first_write_fails k = (k = 0)"

definition no_failure :: "nat \<Rightarrow> bool" where
  "no_failure k = False"

definition para_item :: content_item where
  "para_item = \<lparr>item_type = JStr ''p'', item_text = JStr ''Read the Fun Facts about cocoa'',
     item_url = ''https://www.madewithnestle.ca/cocoa'', item_html = JUndefined\<rparr>"

definition heading_item :: content_item where
  "heading_item = \<lparr>item_type = JStr ''h2'', item_text = JStr ''Fun Facts about cocoa'',
     item_url = ''https://www.madewithnestle.ca/cocoa'', item_html = JUndefined\<rparr>"

lemma valid_para: "valid_pred (Some para_item)"
  by (simp add: valid_pred_def para_item_def graph_types_def)

lemma valid_heading: "valid_pred (Some heading_item)"
  by (simp add: valid_pred_def heading_item_def graph_types_def)

lemma para_not_heading: "c_type (with_id (Some para_item)) \<notin> set heading_types"
  by (simp add: with_id_def para_item_def heading_types_def)

lemma plan_101_paragraphs:
  "plan (validContent (replicate 101 (Some para_item))) =
     [MergeNodes (replicate 100 (with_id (Some para_item))), MergeNodes [with_id (Some para_item)]]"
proof -
  have v: "validContent (replicate 101 (Some para_item)) = replicate 101 (with_id (Some para_item))"
    by (simp add: validContent_def valid_para)
  have h: "headingContent (replicate 101 (with_id (Some para_item))) = []"
    by (simp add: headingContent_def para_not_heading)
  have b: "batches_from nodeBatchSize 0 (replicate 101 (with_id (Some para_item))) =
      [replicate 100 (with_id (Some para_item)), [with_id (Some para_item)]]"
    by (simp add: batches_from.simps nodeBatchSize_def slice_def)
  show ?thesis
    by (simp add: plan_def v h b) (simp add: batches_from.simps)
qed

section \<open>Relationships stay within one url\<close>

text \<open>
  An id made by \<open>make_id\<close> ends in a part without hyphen, so the url is what stands
  before the last hyphen of the id: a node written by ingestion never changes its url.
  \<open>same_url_edge\<close> says that both ends of a relationship are in the store and that
  they carry one url; \<open>url_scoped\<close> says it of every \<^verbatim>\<open>RELATED_TO\<close> relationship.
\<close>

definition id_url :: "string \<Rightarrow> string" where
  "id_url k = rev (tl (dropWhile (\<lambda>c. c \<noteq> CHR ''-'') (rev k)))"

definition ingest_ids :: "node list \<Rightarrow> bool" where
  "ingest_ids ns = (\<forall>n \<in> set ns. id_url (n_id n) = n_url n)"

definition same_url_edge :: "node list \<Rightarrow> edge \<Rightarrow> bool" where
  "same_url_edge ns e =
     ((\<exists>n \<in> set ns. n_id n = e_src e) \<and> (\<exists>other \<in> set ns. n_id other = e_dst e) \<and>
      (\<forall>n \<in> set ns. \<forall>other \<in> set ns.
         n_id n = e_src e \<and> n_id other = e_dst e \<longrightarrow> n_url n = n_url other))"

definition url_scoped :: "graph \<Rightarrow> bool" where
  "url_scoped g = (\<forall>e \<in> set (edges g). e_type e = ''RELATED_TO'' \<longrightarrow> same_url_edge (nodes g) e)"

definition ingest_runs :: "((nat \<Rightarrow> bool) \<times> content_item option list) list \<Rightarrow> graph \<Rightarrow> graph" where
  "ingest_runs runs g = fold (\<lambda>(fails, content) g. store (final (ingestContent fails content g))) runs g"

definition settled :: "session + session \<Rightarrow> session" where
  "settled r = (case r of Inl s \<Rightarrow> s | Inr s \<Rightarrow> s)"

fun items_of :: "query \<Rightarrow> valid_item list" where
  "items_of (MergeNodes batch) = batch"
| "items_of (LinkHeadings batch) = batch"

definition store_ok :: "graph \<Rightarrow> bool" where
  "store_ok g = (ingest_ids (nodes g) \<and> url_scoped g)"

lemma not_alnum_hyphen: "\<not> alnum (CHR ''-'')"
  by (simp add: alnum_def)

lemma no_hyphen_replaced: "CHR ''-'' \<notin> set (replace_non_alnum s)"
  by (auto simp: replace_non_alnum_def not_alnum_hyphen)

lemma id_url_make_id: "id_url (make_id u t) = u"
proof -
  let ?s = "replace_non_alnum (take 50 t)"
  have "dropWhile (\<lambda>c. c \<noteq> CHR ''-'') (rev ?s @ CHR ''-'' # rev u) =
        dropWhile (\<lambda>c. c \<noteq> CHR ''-'') (CHR ''-'' # rev u)"
    using no_hyphen_replaced [of "take 50 t"] by (intro dropWhile_append2) auto
  then show ?thesis by (simp add: id_url_def make_id_def)
qed

lemma same_url_edge_ids:
  assumes "ingest_ids ns"
  shows "same_url_edge ns e =
     (e_src e \<in> set (map n_id ns) \<and> e_dst e \<in> set (map n_id ns) \<and> id_url (e_src e) = id_url (e_dst e))"
  using assms unfolding same_url_edge_def ingest_ids_def by (auto simp: image_iff) metis+

lemma map_n_id_set_props:
  "map n_id (map (\<lambda>n. if n_id n = k then n\<lparr>n_text := t, n_type := ty, n_url := u\<rparr> else n) ns) =
   map n_id ns"
  by (induction ns) auto

lemma map_n_id_merge_node:
  "map n_id (merge_node c ns) =
     (if c_id c \<in> set (map n_id ns) then map n_id ns else map n_id ns @ [c_id c])"
  by (simp add: merge_node_def map_n_id_set_props node_of_def del: map_map)

lemma merge_node_ids: "set (map n_id ns) \<subseteq> set (map n_id (merge_node c ns))"
  by (auto simp: map_n_id_merge_node simp del: set_map)

lemma merge_node_ingest_ids:
  assumes "ingest_ids ns" and "c_id c = make_id (c_url c) (c_text c)"
  shows "ingest_ids (merge_node c ns)"
proof -
  have "id_url (c_id c) = c_url c" using assms(2) by (simp add: id_url_make_id)
  with assms(1) show ?thesis
    by (auto simp: ingest_ids_def merge_node_def node_of_def)
qed

lemma fold_merge_node_ok:
  assumes "ingest_ids ns" and "\<forall>c \<in> set batch. c_id c = make_id (c_url c) (c_text c)"
  shows "ingest_ids (fold merge_node batch ns) \<and> set (map n_id ns) \<subseteq> set (map n_id (fold merge_node batch ns))"
  using assms
proof (induction batch arbitrary: ns)
  case Nil
  then show ?case by simp
next
  case (Cons c batch)
  have a: "ingest_ids (merge_node c ns)" using Cons.prems by (intro merge_node_ingest_ids) simp_all
  have "ingest_ids (fold merge_node batch (merge_node c ns)) \<and>
        set (map n_id (merge_node c ns)) \<subseteq> set (map n_id (fold merge_node batch (merge_node c ns)))"
    using a Cons.prems by (intro Cons.IH) simp_all
  with merge_node_ids [of ns c] show ?case by auto
qed

lemma set_fold_merge_edge: "set (fold merge_edge xs es) = set xs \<union> set es"
  by (induction xs arbitrary: es) (auto simp: merge_edge_def)

lemma link_rows_match:
  "(n, other) \<in> set (link_rows batch ns) \<Longrightarrow> n \<in> set ns \<and> other \<in> set ns \<and> section_match n other"
  by (auto simp: link_rows_def split: if_splits)

lemma exec_store_ok:
  assumes "store_ok g" and "\<forall>c \<in> set (items_of q). c_id c = make_id (c_url c) (c_text c)"
  shows "store_ok (exec q g)"
proof (cases q)
  case (MergeNodes batch)
  from assms have f: "ingest_ids (fold merge_node batch (nodes g))"
    and sub: "set (map n_id (nodes g)) \<subseteq> set (map n_id (fold merge_node batch (nodes g)))"
    using fold_merge_node_ok [of "nodes g" batch] by (simp_all add: store_ok_def MergeNodes)
  have "url_scoped (exec q g)"
    unfolding url_scoped_def
  proof (intro ballI impI)
    fix e assume e: "e \<in> set (edges (exec q g))" and t: "e_type e = ''RELATED_TO''"
    then have "same_url_edge (nodes g) e"
      using assms(1) by (simp add: store_ok_def url_scoped_def MergeNodes)
    then have "e_src e \<in> set (map n_id (nodes g)) \<and> e_dst e \<in> set (map n_id (nodes g)) \<and>
        id_url (e_src e) = id_url (e_dst e)"
      using assms(1) by (simp add: same_url_edge_ids store_ok_def)
    with sub f show "same_url_edge (nodes (exec q g)) e"
      by (simp add: same_url_edge_ids MergeNodes) blast
  qed
  with f show ?thesis by (simp add: store_ok_def MergeNodes)
next
  case (LinkHeadings batch)
  have ids: "ingest_ids (nodes g)" using assms(1) by (simp add: store_ok_def)
  have "url_scoped (exec q g)"
    unfolding url_scoped_def
  proof (intro ballI impI)
    fix e assume e: "e \<in> set (edges (exec q g))" and t: "e_type e = ''RELATED_TO''"
    from e consider (old) "e \<in> set (edges g)"
      | (new) n other where "(n, other) \<in> set (link_rows batch (nodes g))" "e = related_edge n other"
      by (auto simp: LinkHeadings set_fold_merge_edge)
    then show "same_url_edge (nodes (exec q g)) e"
    proof cases
      case old
      with assms(1) t show ?thesis by (simp add: store_ok_def url_scoped_def LinkHeadings)
    next
      case new
      from link_rows_match [OF new(1)]
      have m: "n \<in> set (nodes g)" "other \<in> set (nodes g)" "n_url other = n_url n"
        by (simp_all add: section_match_def)
      with ids have "id_url (n_id n) = id_url (n_id other)"
        by (simp add: ingest_ids_def)
      with m ids show ?thesis
        by (simp add: same_url_edge_ids LinkHeadings new(2) related_edge_def)
    qed
  qed
  with ids show ?thesis by (simp add: store_ok_def LinkHeadings)
qed

lemma run_queries_store_ok:
  assumes "store_ok (store s)"
    and "\<forall>q \<in> set qs. \<forall>c \<in> set (items_of q). c_id c = make_id (c_url c) (c_text c)"
  shows "store_ok (store (settled (run_queries fails qs s)))"
  using assms
proof (induction qs arbitrary: s)
  case Nil
  then show ?case by (simp add: settled_def)
next
  case (Cons q qs)
  show ?case
  proof (cases "fails (length (ran s))")
    case True
    with Cons.prems show ?thesis by (simp add: session_run_def settled_def)
  next
    case False
    let ?s' = "\<lparr>store = exec q (store s), ran = ran s @ [q]\<rparr>"
    have "store_ok (store ?s')" using Cons.prems by (simp add: exec_store_ok)
    then have "store_ok (store (settled (run_queries fails qs ?s')))"
      using Cons.prems by (intro Cons.IH) simp_all
    with False show ?thesis by (simp add: session_run_def)
  qed
qed

lemma set_slice: "set (slice i j xs) \<subseteq> set xs"
  unfolding slice_def by (meson set_take_subset set_drop_subset subset_trans)

lemma set_batches_from: "b \<in> set (batches_from n i xs) \<Longrightarrow> set b \<subseteq> set xs"
proof (induction n i xs rule: batches_from.induct)
  case (1 n i xs)
  show ?case
  proof (cases "0 < n \<and> i < length xs")
    case True
    with "1.prems" have "b = slice i (i + n) xs \<or> b \<in> set (batches_from n (i + n) xs)"
      by (subst (asm) batches_from.simps) simp
    with True "1.IH" set_slice [of i "i + n" xs] show ?thesis by blast
  next
    case False
    with "1.prems" show ?thesis by (subst (asm) batches_from.simps) simp
  qed
qed

lemma plan_items:
  assumes "q \<in> set (plan (validContent content))" and "c \<in> set (items_of q)"
  shows "c_id c = make_id (c_url c) (c_text c)"
proof -
  from assms(1) consider
      (n) b where "q = MergeNodes b" "b \<in> set (batches_from nodeBatchSize 0 (validContent content))"
    | (r) b where "q = LinkHeadings b"
        "b \<in> set (batches_from relBatchSize 0 (headingContent (validContent content)))"
    by (auto simp: plan_def)
  then have "c \<in> set (validContent content)"
  proof cases
    case n
    from set_batches_from [OF n(2)] assms(2) n(1) show ?thesis by auto
  next
    case r
    from set_batches_from [OF r(2)] assms(2) r(1) show ?thesis by (auto simp: headingContent_def)
  qed
  then show ?thesis by (rule validContent_id)
qed

lemma final_ingestContent:
  "final (ingestContent fails content g) =
     settled (run_queries fails (plan (validContent content)) \<lparr>store = g, ran = []\<rparr>)"
  by (simp add: ingestContent_run settled_def split: sum.splits)

lemma ingestContent_store_ok:
  assumes "store_ok g"
  shows "store_ok (store (final (ingestContent fails content g)))"
  unfolding final_ingestContent
  using assms plan_items by (intro run_queries_store_ok) auto

lemma ingest_runs_store_ok: "store_ok g \<Longrightarrow> store_ok (ingest_runs runs g)"
proof (induction runs arbitrary: g)
  case Nil
  then show ?case by (simp add: ingest_runs_def)
next
  case (Cons r runs)
  obtain fails content where r: "r = (fails, content)" by (cases r)
  have "store_ok (store (final (ingestContent fails content g)))"
    using Cons.prems by (rule ingestContent_store_ok)
  then have "store_ok (ingest_runs runs (store (final (ingestContent fails content g))))"
    by (rule Cons.IH)
  then show ?case by (simp add: ingest_runs_def r)
qed

lemma store_ok_empty: "store_ok empty_graph"
  by (simp add: store_ok_def ingest_ids_def url_scoped_def empty_graph_def)


section \<open>Ingesting twice\<close>

text \<open>\<open>latest xs n\<close> is what the node \<open>n\<close> holds once the items \<open>xs\<close> are merged: the
  properties of the last item with its id, if there is one.\<close>

definition latest :: "valid_item list \<Rightarrow> node \<Rightarrow> node" where
  "latest xs n = (case find (\<lambda>c. c_id c = n_id n) (rev xs) of None \<Rightarrow> n | Some c \<Rightarrow> node_of c)"

definition no_duplicates :: "graph \<Rightarrow> bool" where
  "no_duplicates g = (distinct (map n_id (nodes g)) \<and> distinct (edges g))"

lemma latest_Nil: "latest [] n = n"
  by (simp add: latest_def)

lemma latest_snoc:
  "latest (xs @ [c]) n = (if c_id c = n_id n then node_of c else latest xs n)"
  by (simp add: latest_def)

lemma n_id_latest: "n_id (latest xs n) = n_id n"
  by (auto simp: latest_def node_of_def find_Some_iff split: option.splits)

lemma set_props_node_of:
  "n_id n = c_id c \<Longrightarrow> n\<lparr>n_text := c_text c, n_type := c_type c, n_url := c_url c\<rparr> = node_of c"
  by (cases n) (simp add: node_of_def)

lemma merge_node_present:
  "c_id c \<in> set (map n_id ns) \<Longrightarrow>
   merge_node c ns = map (\<lambda>n. if n_id n = c_id c then node_of c else n) ns"
  by (simp add: merge_node_def set_props_node_of cong: map_cong)

lemma fold_merge_node_present:
  "set (map c_id xs) \<subseteq> set (map n_id ns) \<Longrightarrow> fold merge_node xs ns = map (latest xs) ns"
proof (induction xs rule: rev_induct)
  case Nil
  then show ?case by (simp add: latest_Nil [abs_def])
next
  case (snoc c xs)
  then have ih: "fold merge_node xs ns = map (latest xs) ns" by simp
  have "c_id c \<in> set (map n_id (map (latest xs) ns))"
    using snoc.prems by (simp add: n_id_latest comp_def)
  then have "merge_node c (map (latest xs) ns) =
      map (\<lambda>n. if n_id n = c_id c then node_of c else n) (map (latest xs) ns)"
    by (rule merge_node_present)
  also have "\<dots> = map (latest (xs @ [c])) ns"
    by (auto simp: latest_snoc n_id_latest)
  finally show ?case by (simp add: ih)
qed

lemma fold_merge_node_latest:
  "n \<in> set (fold merge_node xs ns) \<Longrightarrow> latest xs n = n"
proof (induction xs arbitrary: n rule: rev_induct)
  case Nil
  then show ?case by (simp add: latest_Nil)
next
  case (snoc c xs)
  let ?m = "fold merge_node xs ns"
  from snoc.prems have n: "n \<in> set (merge_node c ?m)" by simp
  show ?case
  proof (cases "c_id c \<in> set (map n_id ?m)")
    case True
    with n obtain n' where n': "n' \<in> set ?m" "n = (if n_id n' = c_id c then node_of c else n')"
      by (auto simp: merge_node_present)
    then show ?thesis
      using snoc.IH [of n'] by (auto simp: latest_snoc node_of_def)
  next
    case False
    with n have "n \<in> set ?m \<or> n = node_of c" by (auto simp: merge_node_def)
    then show ?thesis
    proof
      assume m: "n \<in> set ?m"
      with False have "n_id n \<noteq> c_id c" by (metis image_eqI set_map)
      with snoc.IH [OF m] show ?thesis by (simp add: latest_snoc)
    next
      assume "n = node_of c"
      then show ?thesis by (simp add: latest_snoc node_of_def)
    qed
  qed
qed

lemma fold_merge_node_has_ids: "set (map c_id xs) \<subseteq> set (map n_id (fold merge_node xs ns))"
proof (induction xs rule: rev_induct)
  case Nil
  show ?case by simp
next
  case (snoc c xs)
  have "c_id c \<in> set (map n_id (merge_node c (fold merge_node xs ns)))"
    by (simp add: map_n_id_merge_node del: set_map)
  moreover have "set (map c_id xs) \<subseteq> set (map n_id (merge_node c (fold merge_node xs ns)))"
    using snoc merge_node_ids by blast
  ultimately show ?case by simp
qed

lemma fold_merge_node_twice:
  "fold merge_node xs (fold merge_node xs ns) = fold merge_node xs ns"
proof -
  have "fold merge_node xs (fold merge_node xs ns) = map (latest xs) (fold merge_node xs ns)"
    by (rule fold_merge_node_present) (rule fold_merge_node_has_ids)
  also have "\<dots> = fold merge_node xs ns"
    by (rule map_idI) (rule fold_merge_node_latest)
  finally show ?thesis .
qed

lemma fold_merge_edge_present: "set xs \<subseteq> set es \<Longrightarrow> fold merge_edge xs es = es"
  by (induction xs arbitrary: es) (auto simp: merge_edge_def)

lemma fold_merge_edge_twice: "fold merge_edge xs (fold merge_edge xs es) = fold merge_edge xs es"
  by (rule fold_merge_edge_present) (simp add: set_fold_merge_edge)

lemma concat_batches_from: "0 < n \<Longrightarrow> concat (batches_from n i xs) = drop i xs"
proof (induction n i xs rule: batches_from.induct)
  case (1 n i xs)
  show ?case
  proof (cases "i < length xs")
    case True
    have "take n (drop i xs) @ drop n (drop i xs) = drop i xs" by (rule append_take_drop_id)
    then have "slice i (i + n) xs @ drop (i + n) xs = drop i xs"
      by (simp add: slice_def add.commute)
    with True 1 show ?thesis by (subst batches_from.simps) simp
  next
    case False
    then show ?thesis by (subst batches_from.simps) simp
  qed
qed

lemma fold_exec_MergeNodes:
  "fold exec (map MergeNodes bs) g = g\<lparr>nodes := fold merge_node (concat bs) (nodes g)\<rparr>"
  by (induction bs arbitrary: g) simp_all

lemma link_rows_append: "link_rows (xs @ ys) ns = link_rows xs ns @ link_rows ys ns"
  by (simp add: link_rows_def)

lemma fold_exec_LinkHeadings:
  "fold exec (map LinkHeadings bs) g =
     g\<lparr>edges := fold merge_edge (map (\<lambda>(n, other). related_edge n other) (link_rows (concat bs) (nodes g)))
                  (edges g)\<rparr>"
proof (induction bs arbitrary: g)
  case Nil
  show ?case by (simp add: link_rows_def)
next
  case (Cons b bs)
  show ?case by (simp add: Cons link_rows_append)
qed

definition link_all :: "valid_item list \<Rightarrow> node list \<Rightarrow> edge list" where
  "link_all hc ns = map (\<lambda>(n, other). related_edge n other) (link_rows hc ns)"

lemma fold_exec_plan:
  "fold exec (plan vc) g =
     \<lparr>nodes = fold merge_node vc (nodes g),
      edges = fold merge_edge (link_all (headingContent vc) (fold merge_node vc (nodes g))) (edges g)\<rparr>"
  by (simp add: plan_def fold_exec_MergeNodes fold_exec_LinkHeadings concat_batches_from
      nodeBatchSize_def relBatchSize_def link_all_def)

lemma ingest_ok_store:
  "store (final (ingestContent no_failure content g)) =
     \<lparr>nodes = fold merge_node (validContent content) (nodes g),
      edges = fold merge_edge
                (link_all (headingContent (validContent content))
                   (fold merge_node (validContent content) (nodes g)))
                (edges g)\<rparr>"
  using ingest_no_failure [of content no_failure g]
  by (simp add: no_failure_def fold_exec_plan)

lemma ingest_twice:
  "store (final (ingestContent no_failure content (store (final (ingestContent no_failure content g))))) =
   store (final (ingestContent no_failure content g))"
  by (simp add: ingest_ok_store fold_merge_node_twice fold_merge_edge_twice)




lemma plan_heading_para:
  "plan (validContent [Some heading_item, Some para_item]) =
     [MergeNodes [with_id (Some heading_item), with_id (Some para_item)],
      LinkHeadings [with_id (Some heading_item)]]"
proof -
  have v: "validContent [Some heading_item, Some para_item] =
      [with_id (Some heading_item), with_id (Some para_item)]"
    by (simp add: validContent_def valid_para valid_heading)
  have h: "headingContent [with_id (Some heading_item), with_id (Some para_item)] =
      [with_id (Some heading_item)]"
    by (simp add: headingContent_def para_not_heading)
      (simp add: with_id_def heading_item_def heading_types_def)
  show ?thesis
    by (simp add: plan_def v h batches_from.simps nodeBatchSize_def relBatchSize_def slice_def)
qed

text \<open>
  Claim C2, as the code has it. Both loops stand in one \<^verbatim>\<open>try\<close>: when the \<open>k\<close>-th
  batch write is the first to fail, the batches before it are written, the failure is
  logged once, the session is closed, and no batch after the \<open>k\<close>-th is attempted;
  \<^verbatim>\<open>ingestContent\<close> itself returns normally.
\<close>

theorem ingest_stops_at_first_failed_batch:
  assumes "k < length (plan (validContent content))" and "fails k" and "\<forall>j<k. \<not> fails j"
  shows "ran (final (ingestContent fails content g)) = take (Suc k) (plan (validContent content)) \<and>
         store (final (ingestContent fails content g)) = fold exec (take k (plan (validContent content))) g \<and>
         console (ingestContent fails content g) =
           [Processing (length (validContent content)), ErrorIngesting] \<and>
         session_closed (ingestContent fails content g)"
  using ingest_first_failure [OF assms, of g] by simp

theorem ingest_stops_at_first_failed_batch_witness:
  "ran (final (ingestContent first_write_fails [Some heading_item, Some para_item] empty_graph)) =
     [MergeNodes [with_id (Some heading_item), with_id (Some para_item)]] \<and>
   store (final (ingestContent first_write_fails [Some heading_item, Some para_item] empty_graph)) =
     empty_graph \<and>
   console (ingestContent first_write_fails [Some heading_item, Some para_item] empty_graph) =
     [Processing 2, ErrorIngesting]"
proof -
  have k: "0 < length (plan (validContent [Some heading_item, Some para_item]))"
    by (simp add: plan_heading_para)
  have f: "first_write_fails 0" by (simp add: first_write_fails_def)
  have n: "\<forall>j<0::nat. \<not> first_write_fails j" by simp
  have l: "length (validContent [Some heading_item, Some para_item]) = 2"
    by (simp add: validContent_def valid_para valid_heading)
  show ?thesis
    using ingest_stops_at_first_failed_batch [OF k f n, of empty_graph]
    by (simp add: plan_heading_para l)
qed

text \<open>
  The claim as stated fails: of 101 paragraph items the first 100 are one batch and the
  last is a second one; when the first write fails the second batch is never sent,
  though it is when nothing fails.
\<close>

theorem batch_isolation_counterexample:
  "ran (final (ingestContent first_write_fails (replicate 101 (Some para_item)) empty_graph)) =
     [MergeNodes (replicate 100 (with_id (Some para_item)))] \<and>
   ran (final (ingestContent no_failure (replicate 101 (Some para_item)) empty_graph)) =
     [MergeNodes (replicate 100 (with_id (Some para_item))), MergeNodes [with_id (Some para_item)]]"
proof
  show "ran (final (ingestContent first_write_fails (replicate 101 (Some para_item)) empty_graph)) =
     [MergeNodes (replicate 100 (with_id (Some para_item)))]"
    using ingest_first_failure [of 0 "replicate 101 (Some para_item)" first_write_fails empty_graph]
    by (simp add: plan_101_paragraphs first_write_fails_def)
  show "ran (final (ingestContent no_failure (replicate 101 (Some para_item)) empty_graph)) =
     [MergeNodes (replicate 100 (with_id (Some para_item))), MergeNodes [with_id (Some para_item)]]"
    using ingest_no_failure [of "replicate 101 (Some para_item)" no_failure empty_graph]
    by (simp add: plan_101_paragraphs no_failure_def)
qed

text \<open>
  Claim C1. Starting from the empty store, after any number of ingestions, whatever
  writes fail in them, every \<^verbatim>\<open>RELATED_TO\<close> relationship of the store joins two nodes of
  the store that carry the same url; and one ingestion keeps that true of any store
  whose nodes were written by ingestion.
\<close>

theorem related_edges_join_same_url:
  "url_scoped (ingest_runs runs empty_graph) \<and>
   (store_ok g \<longrightarrow> url_scoped (store (final (ingestContent fails content g))))"
proof
  show "url_scoped (ingest_runs runs empty_graph)"
    using ingest_runs_store_ok [OF store_ok_empty, of runs] by (simp add: store_ok_def)
  show "store_ok g \<longrightarrow> url_scoped (store (final (ingestContent fails content g)))"
    using ingestContent_store_ok [of g fails content] by (simp add: store_ok_def)
qed

lemma store_heading_para:
  "ingest_runs [(no_failure, [Some heading_item, Some para_item])] empty_graph =
     \<lparr>nodes = [node_of (with_id (Some heading_item)), node_of (with_id (Some para_item))],
      edges = [related_edge (node_of (with_id (Some heading_item))) (node_of (with_id (Some para_item)))]\<rparr>"
  by code_simp

theorem related_edges_join_same_url_witness:
  "url_scoped (ingest_runs [(no_failure, [Some heading_item, Some para_item])] empty_graph) \<and>
   edges (ingest_runs [(no_failure, [Some heading_item, Some para_item])] empty_graph) =
     [related_edge (node_of (with_id (Some heading_item))) (node_of (with_id (Some para_item)))] \<and>
   n_url (node_of (with_id (Some heading_item))) = n_url (node_of (with_id (Some para_item))) \<and>
   store_ok empty_graph \<and>
   url_scoped (store (final (ingestContent first_write_fails [Some heading_item] empty_graph)))"
  using related_edges_join_same_url
      [of "[(no_failure, [Some heading_item, Some para_item])]" empty_graph first_write_fails
        "[Some heading_item]"]
  by (simp add: store_heading_para store_ok_empty)
    (simp add: node_of_def with_id_def heading_item_def para_item_def)

lemma merge_node_distinct: "distinct (map n_id ns) \<Longrightarrow> distinct (map n_id (merge_node c ns))"
  by (simp add: map_n_id_merge_node del: set_map)

lemma fold_merge_node_distinct:
  "distinct (map n_id ns) \<Longrightarrow> distinct (map n_id (fold merge_node xs ns))"
  by (induction xs arbitrary: ns) (simp_all add: merge_node_distinct)

lemma fold_merge_edge_distinct: "distinct es \<Longrightarrow> distinct (fold merge_edge xs es)"
  by (induction xs arbitrary: es) (simp_all add: merge_edge_def)

lemma exec_no_duplicates: "no_duplicates g \<Longrightarrow> no_duplicates (exec q g)"
  by (cases q) (simp_all add: no_duplicates_def fold_merge_node_distinct fold_merge_edge_distinct)

lemma run_queries_no_duplicates:
  "no_duplicates (store s) \<Longrightarrow> no_duplicates (store (settled (run_queries fails qs s)))"
proof (induction qs arbitrary: s)
  case Nil
  then show ?case by (simp add: settled_def)
next
  case (Cons q qs)
  show ?case
  proof (cases "fails (length (ran s))")
    case True
    with Cons.prems show ?thesis by (simp add: session_run_def settled_def)
  next
    case False
    let ?s' = "\<lparr>store = exec q (store s), ran = ran s @ [q]\<rparr>"
    have "no_duplicates (store ?s')" using Cons.prems by (simp add: exec_no_duplicates)
    then have "no_duplicates (store (settled (run_queries fails qs ?s')))" by (rule Cons.IH)
    with False show ?thesis by (simp add: session_run_def)
  qed
qed

lemma ingestContent_no_duplicates:
  "no_duplicates g \<Longrightarrow> no_duplicates (store (final (ingestContent fails content g)))"
  unfolding final_ingestContent by (rule run_queries_no_duplicates) simp

text \<open>
  Claim C6. When no write fails, ingesting a content list into the store that the same
  list was just ingested into changes nothing: no node and no relationship is added a
  second time. And an ingestion, whatever fails in it, leaves a store without two nodes
  of one id and without a repeated relationship as such a store.
\<close>

theorem ingest_twice_same_store:
  "store (final (ingestContent no_failure content (store (final (ingestContent no_failure content g))))) =
     store (final (ingestContent no_failure content g)) \<and>
   (no_duplicates g \<longrightarrow> no_duplicates (store (final (ingestContent fails content g))))"
  using ingest_twice [of content g] ingestContent_no_duplicates [of g fails content] by simp

theorem ingest_twice_same_store_witness:
  "store (final (ingestContent no_failure [Some heading_item, Some para_item]
      (store (final (ingestContent no_failure [Some heading_item, Some para_item] empty_graph))))) =
   \<lparr>nodes = [node_of (with_id (Some heading_item)), node_of (with_id (Some para_item))],
    edges = [related_edge (node_of (with_id (Some heading_item))) (node_of (with_id (Some para_item)))]\<rparr> \<and>
   no_duplicates empty_graph \<and>
   no_duplicates (store (final (ingestContent no_failure [Some heading_item, Some para_item] empty_graph)))"
  using ingest_twice_same_store [of "[Some heading_item, Some para_item]" empty_graph no_failure]
    store_heading_para
  by (simp add: ingest_runs_def no_duplicates_def empty_graph_def)




section \<open>Querying the graph\<close>

text \<open>
  Numbers. The similarity that the database computes is a double, and every double is a
  rational: it is modelled as a \<^typ>\<open>rat\<close>. The statement compares it with the literal
  \<^verbatim>\<open>0.6\<close>, the double just below 6/10; no double lies between the two, so on doubles
  the test is \<open>6 / 10 < x\<close>. \<^verbatim>\<open>x.toFixed(2)\<close> takes the integer \<open>n\<close> with \<open>n / 100\<close>
  nearest to the exact value of \<open>x\<close>, the larger one on a tie, and prints \<open>n\<close> with two
  decimals (for \<open>\<bar>x\<bar>\<close> below \<open>10^21\<close>, which is all that is used here).

  The similarity itself, \<^verbatim>\<open>apoc.text.jaroWinklerDistance(apoc.text.clean(a), apoc.text.clean(b))\<close>,
  is a function of the database: a parameter here.
\<close>

definition digit :: "nat \<Rightarrow> char" where
  "digit d = char_of (48 + d)"

fun dec :: "nat \<Rightarrow> string" where
  "dec n = (if n < 10 then [digit n] else dec (n div 10) @ [digit (n mod 10)])"

declare dec.simps [simp del]

definition round2 :: "rat \<Rightarrow> nat" where
  "round2 x = nat \<lfloor>x * 100 + 1 / 2\<rfloor>"

definition hundredths :: "nat \<Rightarrow> string" where
  "hundredths h = dec (h div 100) @ ''.'' @ [digit (h div 10 mod 10), digit (h mod 10)]"

definition toFixed2 :: "rat \<Rightarrow> string" where
  "toFixed2 x = (if x < 0 then ''-'' else []) @ hundredths (round2 \<bar>x\<bar>)"

text \<open>A row the statement returns, and the object \<^verbatim>\<open>queryRelatedConcepts\<close> makes of it.\<close>

record row =
  r_source :: string
  r_relationship :: "string option"
  r_target :: string
  r_sourceUrl :: string
  r_targetUrl :: string
  r_similarity :: rat

record relation =
  rel_source :: string
  rel_relationship :: string
  rel_target :: string
  rel_sourceUrl :: string
  rel_targetUrl :: string
  rel_confidence :: string

text \<open>
  \<^verbatim>\<open>MATCH (n:Content)-[r:RELATED_TO]->(m:Content) WHERE n.text CONTAINS $query OR m.text CONTAINS $query\<close>
\<close>

definition match_rows :: "(string \<Rightarrow> string \<Rightarrow> rat) \<Rightarrow> string \<Rightarrow> graph \<Rightarrow> row list" where
  "match_rows similarity q g =
     [\<lparr>r_source = n_text n, r_relationship = e_context e, r_target = n_text m,
       r_sourceUrl = n_url n, r_targetUrl = n_url m,
       r_similarity = similarity (n_text n) (n_text m)\<rparr>.
      e \<leftarrow> edges g, e_type e = ''RELATED_TO'',
      n \<leftarrow> nodes g, n_id n = e_src e,
      m \<leftarrow> nodes g, n_id m = e_dst e,
      includes_str (n_text n) q \<or> includes_str (n_text m) q]"

text \<open>
  \<^verbatim>\<open>WHERE similarity > 0.6 ... ORDER BY similarity DESC LIMIT 10\<close>. Rows of equal
  similarity are kept in the order they were matched in.
\<close>

definition related_rows :: "(string \<Rightarrow> string \<Rightarrow> rat) \<Rightarrow> string \<Rightarrow> graph \<Rightarrow> row list" where
  "related_rows similarity q g =
     take 10 (sort_key (\<lambda>r. - r_similarity r)
       (filter (\<lambda>r. 6 / 10 < r_similarity r) (match_rows similarity q g)))"

definition relation_of :: "row \<Rightarrow> relation" where
  "relation_of r =
     \<lparr>rel_source = r_source r,
      rel_relationship = (case r_relationship r of None \<Rightarrow> ''related''
                          | Some c \<Rightarrow> if c = [] then ''related'' else c),
      rel_target = r_target r,
      rel_sourceUrl = r_sourceUrl r,
      rel_targetUrl = r_targetUrl r,
      rel_confidence = toFixed2 (r_similarity r)\<rparr>"

text \<open>\<open>query_fails\<close>: the statement raises; the \<^verbatim>\<open>catch\<close> logs and returns the empty list.\<close>

definition queryRelatedConcepts ::
  "(string \<Rightarrow> string \<Rightarrow> rat) \<Rightarrow> bool \<Rightarrow> string \<Rightarrow> graph \<Rightarrow> relation list" where
  "queryRelatedConcepts similarity query_fails q g =
     (if query_fails then [] else map relation_of (related_rows similarity q g))"

text \<open>The number a string of the form \<^verbatim>\<open>d.dd\<close> denotes.\<close>

definition digit_value :: "char \<Rightarrow> nat" where
  "digit_value c = of_char c - 48"

definition fixed2_value :: "string \<Rightarrow> rat option" where
  "fixed2_value s = (case s of
      [a, p, b, c] \<Rightarrow>
        if p = CHR ''.'' then Some (of_nat (100 * digit_value a + 10 * digit_value b + digit_value c) / 100)
        else None
    | _ \<Rightarrow> None)"

definition just_above :: "string \<Rightarrow> string \<Rightarrow> rat" where
  "just_above a b = 77 / 128"

definition cocoa_store :: graph where
  "cocoa_store = ingest_runs [(no_failure, [Some heading_item, Some para_item])] empty_graph"

lemma digit_value_digit: "d < 10 \<Longrightarrow> digit_value (digit d) = d"
  by (simp add: digit_value_def digit_def)

lemma dec_digit: "n < 10 \<Longrightarrow> dec n = [digit n]"
  by (simp add: dec.simps)

lemma fixed2_value_digits:
  "fixed2_value [a, CHR ''.'', b, c] =
     Some (of_nat (100 * digit_value a + 10 * digit_value b + digit_value c) / 100)"
  by (simp add: fixed2_value_def)

lemma hundredths_digits:
  assumes "h < 1000"
  shows "hundredths h = [digit (h div 100), CHR ''.'', digit (h div 10 mod 10), digit (h mod 10)]"
proof -
  from assms have "h div 100 < 10" by linarith
  then show ?thesis by (simp add: hundredths_def dec_digit)
qed

lemma fixed2_value_hundredths:
  assumes "h < 1000"
  shows "fixed2_value (hundredths h) = Some (of_nat h / 100)"
proof -
  from assms have a: "h div 100 < 10" by linarith
  have b: "h div 10 mod 10 < 10" by simp
  have c: "h mod 10 < 10" by simp
  have "h mod 100 = 10 * (h div 10 mod 10) + h mod 10"
    using mod_mult2_eq [of h 10 10] by simp
  moreover have "100 * (h div 100) + h mod 100 = h" by simp
  ultimately have "100 * (h div 100) + 10 * (h div 10 mod 10) + h mod 10 = h"
    by linarith
  then have "100 * digit_value (digit (h div 100)) + 10 * digit_value (digit (h div 10 mod 10)) +
      digit_value (digit (h mod 10)) = h"
    by (simp only: digit_value_digit [OF a] digit_value_digit [OF b] digit_value_digit [OF c])
  then show ?thesis
    by (simp only: hundredths_digits [OF assms] fixed2_value_digits)
qed

lemma round2_bounds:
  assumes "6 / 10 < x" and "x \<le> 1"
  shows "60 \<le> round2 x \<and> round2 x \<le> 100"
proof -
  have "(60::int) \<le> \<lfloor>x * 100 + 1 / 2\<rfloor>" using assms(1) by (simp add: le_floor_iff)
  moreover have "\<lfloor>x * 100 + 1 / 2\<rfloor> \<le> (100::int)"
  proof -
    have "x * 100 + 1 / 2 < 101" using assms(2) by simp
    then have "\<lfloor>x * 100 + 1 / 2\<rfloor> < (101::int)" by (simp add: floor_less_iff)
    then show ?thesis by simp
  qed
  ultimately show ?thesis unfolding round2_def by linarith
qed



definition length_ratio :: "string \<Rightarrow> string \<Rightarrow> rat" where
  "length_ratio a b = of_nat (min (length a) (length b)) / of_nat (max (length a) (length b))"

definition para_item2 :: content_item where
  "para_item2 = \<lparr>item_type = JStr ''li'', item_text = JStr ''Fun Facts about cocoa!'',
     item_url = ''https://www.madewithnestle.ca/cocoa'', item_html = JUndefined\<rparr>"

definition cocoa_store2 :: graph where
  "cocoa_store2 =
     ingest_runs [(no_failure, [Some heading_item, Some para_item, Some para_item2])] empty_graph"

definition in_claimed_range :: "string \<Rightarrow> bool" where
  "in_claimed_range s = (case fixed2_value s of None \<Rightarrow> False | Some v \<Rightarrow> 6 / 10 < v \<and> v \<le> 1)"


lemma length_ratio_le_1: "length_ratio a b \<le> 1"
proof (cases "max (length a) (length b) = 0")
  case True
  then show ?thesis by (simp add: length_ratio_def)
next
  case False
  then have "0 < max (length a) (length b)" by linarith
  then have "0 < (of_nat (max (length a) (length b)) :: rat)" by (simp only: of_nat_0_less_iff)
  moreover have "(of_nat (min (length a) (length b)) :: rat) \<le> of_nat (max (length a) (length b))"
    by (simp only: of_nat_le_iff)
  ultimately show ?thesis by (simp only: length_ratio_def divide_le_eq_1_pos)
qed

lemma related_rows_length: "length (related_rows similarity q g) \<le> 10"
  by (simp add: related_rows_def)

lemma related_rows_above:
  "r \<in> set (related_rows similarity q g) \<Longrightarrow> 6 / 10 < r_similarity r"
  by (auto simp: related_rows_def dest: in_set_takeD)

lemma related_rows_descending:
  "sorted_wrt (\<ge>) (map r_similarity (related_rows similarity q g))"
proof -
  let ?xs = "filter (\<lambda>r. 6 / 10 < r_similarity r) (match_rows similarity q g)"
  have "sorted (map (\<lambda>r. - r_similarity r) (sort_key (\<lambda>r. - r_similarity r) ?xs))"
    by (rule sorted_sort_key)
  then have "sorted_wrt (\<lambda>a b. r_similarity b \<le> r_similarity a) (sort_key (\<lambda>r. - r_similarity r) ?xs)"
    by (simp add: sorted_wrt_map)
  then have "sorted_wrt (\<lambda>a b. r_similarity b \<le> r_similarity a)
      (take 10 (sort_key (\<lambda>r. - r_similarity r) ?xs))"
    by (rule sorted_wrt_take)
  then show ?thesis by (simp add: related_rows_def sorted_wrt_map)
qed

lemma confidence_value:
  assumes "6 / 10 < r_similarity r" and "r_similarity r \<le> 1"
  shows "rel_confidence (relation_of r) = hundredths (round2 (r_similarity r)) \<and>
         fixed2_value (rel_confidence (relation_of r)) = Some (of_nat (round2 (r_similarity r)) / 100) \<and>
         60 \<le> round2 (r_similarity r) \<and> round2 (r_similarity r) \<le> 100"
proof -
  have b: "60 \<le> round2 (r_similarity r) \<and> round2 (r_similarity r) \<le> 100"
    using assms by (rule round2_bounds)
  have c: "rel_confidence (relation_of r) = hundredths (round2 (r_similarity r))"
    using assms(1) by (simp add: relation_of_def toFixed2_def)
  from b have "round2 (r_similarity r) < 1000" by simp
  then have "fixed2_value (hundredths (round2 (r_similarity r))) =
      Some (of_nat (round2 (r_similarity r)) / 100)"
    by (rule fixed2_value_hundredths)
  with b c show ?thesis by simp
qed

text \<open>
  Claim C7, as the code has it. For a similarity that never exceeds 1, the query returns
  at most 10 relations, each made of a row whose similarity is strictly above 0.6, in
  descending order of similarity; the confidence reported is the similarity rounded to
  two decimals, a string that denotes a number from 0.60 to 1.00, both included.
\<close>

theorem graph_query_shape:
  assumes "\<forall>a b. similarity a b \<le> 1"
  shows "length (queryRelatedConcepts similarity query_fails q g) \<le> 10 \<and>
    queryRelatedConcepts similarity query_fails q g =
      (if query_fails then [] else map relation_of (related_rows similarity q g)) \<and>
    sorted_wrt (\<ge>) (map r_similarity (related_rows similarity q g)) \<and>
    (\<forall>r \<in> set (related_rows similarity q g).
       6 / 10 < r_similarity r \<and>
       rel_confidence (relation_of r) = toFixed2 (r_similarity r) \<and>
       (\<exists>h. 60 \<le> h \<and> h \<le> 100 \<and> toFixed2 (r_similarity r) = hundredths h \<and>
            fixed2_value (rel_confidence (relation_of r)) = Some (of_nat h / 100)))"
proof (intro conjI ballI)
  show "length (queryRelatedConcepts similarity query_fails q g) \<le> 10"
    using related_rows_length [of similarity q g] by (simp add: queryRelatedConcepts_def)
  show "queryRelatedConcepts similarity query_fails q g =
      (if query_fails then [] else map relation_of (related_rows similarity q g))"
    by (simp add: queryRelatedConcepts_def)
  show "sorted_wrt (\<ge>) (map r_similarity (related_rows similarity q g))"
    by (rule related_rows_descending)
next
  fix r assume r: "r \<in> set (related_rows similarity q g)"
  then show above: "6 / 10 < r_similarity r" by (rule related_rows_above)
  show "rel_confidence (relation_of r) = toFixed2 (r_similarity r)"
    by (simp add: relation_of_def)
  have le: "r_similarity r \<le> 1"
    using r assms by (auto simp: related_rows_def match_rows_def dest!: in_set_takeD)
  have t: "rel_confidence (relation_of r) = toFixed2 (r_similarity r)"
    by (simp add: relation_of_def)
  from confidence_value [OF above le]
  have c1: "rel_confidence (relation_of r) = hundredths (round2 (r_similarity r))"
    and c2: "fixed2_value (rel_confidence (relation_of r)) = Some (of_nat (round2 (r_similarity r)) / 100)"
    and c3: "60 \<le> round2 (r_similarity r)" and c4: "round2 (r_similarity r) \<le> 100"
    by blast+
  from t [symmetric] c1 have c5: "toFixed2 (r_similarity r) = hundredths (round2 (r_similarity r))"
    by (rule trans)
  from c3 c4 c5 c2
  show "\<exists>h. 60 \<le> h \<and> h \<le> 100 \<and> toFixed2 (r_similarity r) = hundredths h \<and>
            fixed2_value (rel_confidence (relation_of r)) = Some (of_nat h / 100)"
    by blast
qed

lemma cocoa2_rows:
  "map r_similarity (related_rows length_ratio ''cocoa'' cocoa_store2) = [21 / 22, 7 / 10]"
  by code_simp

lemma cocoa2_confidences:
  "map rel_confidence (map relation_of (related_rows length_ratio ''cocoa'' cocoa_store2)) =
     [''0.95'', ''0.70'']"
  by code_simp

theorem graph_query_shape_witness:
  "(\<forall>a b. length_ratio a b \<le> 1) \<and>
   length (queryRelatedConcepts length_ratio False ''cocoa'' cocoa_store2) \<le> 10 \<and>
   map rel_confidence (queryRelatedConcepts length_ratio False ''cocoa'' cocoa_store2) =
     [''0.95'', ''0.70''] \<and>
   sorted_wrt (\<ge>) [21 / 22, 7 / (10::rat)]"
proof -
  have a: "\<forall>a b. length_ratio a b \<le> 1" by (simp add: length_ratio_le_1)
  note th = graph_query_shape [OF a, of False "''cocoa''" cocoa_store2]
  from th have l: "length (queryRelatedConcepts length_ratio False ''cocoa'' cocoa_store2) \<le> 10"
    by (rule conjunct1)
  from th have "queryRelatedConcepts length_ratio False ''cocoa'' cocoa_store2 =
      (if False then [] else map relation_of (related_rows length_ratio ''cocoa'' cocoa_store2))"
    by blast
  then have e: "queryRelatedConcepts length_ratio False ''cocoa'' cocoa_store2 =
      map relation_of (related_rows length_ratio ''cocoa'' cocoa_store2)"
    by (simp only: if_False)
  from th have s: "sorted_wrt (\<ge>) (map r_similarity (related_rows length_ratio ''cocoa'' cocoa_store2))"
    by blast
  have c: "map rel_confidence (queryRelatedConcepts length_ratio False ''cocoa'' cocoa_store2) =
      [''0.95'', ''0.70'']"
    by (simp only: e cocoa2_confidences)
  from s have "sorted_wrt (\<ge>) [21 / 22, 7 / (10::rat)]" by (simp only: cocoa2_rows)
  with a l c show ?thesis by blast
qed

text \<open>
  The range the claim states, 0.6 excluded, fails: a similarity of 77/128 = 0.6015625
  passes the threshold and is reported as the confidence 0.60.
\<close>

theorem confidence_range_counterexample:
  "map r_similarity (related_rows just_above ''cocoa'' cocoa_store) = [77 / 128] \<and>
   map rel_confidence (queryRelatedConcepts just_above False ''cocoa'' cocoa_store) = [''0.60''] \<and>
   map (\<lambda>rel. in_claimed_range (rel_confidence rel))
     (queryRelatedConcepts just_above False ''cocoa'' cocoa_store) = [False]"
  by code_simp




section \<open>The chat endpoint\<close>

text \<open>
  The handler of \<^verbatim>\<open>POST /api/chat\<close>. The search index, the graph database and the
  language model are services: a call either raises (\<open>Inl\<close>) or returns. The handler
  is given \<^verbatim>\<open>req.body\<close>: \<open>None\<close> when it is \<^verbatim>\<open>undefined\<close>, else an object whose
  \<^verbatim>\<open>message\<close> is a string or is missing. Its outcome is the response it writes, or the
  error it raises outside its \<^verbatim>\<open>try\<close>. \<open>retrieve\<close> is the part of the handler that
  gathers the context: the lexical search first, then the graph query.
\<close>

datatype failure = Failure string

record search_hit =
  d_text :: string
  d_url :: string
  d_highlights :: "string list option"

record snippet =
  s_text :: string
  s_url :: string
  s_highlights :: string

record source =
  src_text :: string
  src_url :: string

datatype body = Answer string "source list" | ErrorBody string "string option"

record response =
  status :: nat
  body :: body

record request_body =
  message :: "string option"

datatype outcome = Responded response | Rejected failure

record services =
  search :: "string \<Rightarrow> failure + search_hit list"
  graph_down :: bool
  graph_store :: graph
  similarity :: "string \<Rightarrow> string \<Rightarrow> rat"
  completion :: "string \<Rightarrow> failure + string"
  development :: bool

fun join :: "string \<Rightarrow> string list \<Rightarrow> string" where
  "join sep [] = []"
| "join sep [x] = x"
| "join sep (x # y # ys) = x @ sep @ join sep (y # ys)"

definition snippet_of :: "search_hit \<Rightarrow> snippet" where
  "snippet_of hit =
     \<lparr>s_text = d_text hit, s_url = d_url hit,
      s_highlights = (case d_highlights hit of None \<Rightarrow> [] | Some hs \<Rightarrow> join ''...'' hs)\<rparr>"

definition snippet_line :: "snippet \<Rightarrow> string" where
  "snippet_line doc = ''Relevant content (from '' @ s_url doc @ ''): '' @
     (if s_highlights doc \<noteq> [] then s_highlights doc else take 200 (s_text doc))"

definition relation_line :: "relation \<Rightarrow> string" where
  "relation_line rel = ''Related concept: '' @ rel_source rel @ '' ('' @ rel_sourceUrl rel @ '') '' @
     rel_relationship rel @ '' '' @ rel_target rel @ '' ('' @ rel_targetUrl rel @ '')''"

definition snippet_source :: "snippet \<Rightarrow> source" where
  "snippet_source item = \<lparr>src_text = take 200 (s_text item) @ ''...'', src_url = s_url item\<rparr>"

definition relation_source :: "relation \<Rightarrow> source" where
  "relation_source item =
     \<lparr>src_text = rel_source item @ '' '' @ rel_relationship item @ '' '' @ rel_target item,
      src_url = (if rel_sourceUrl item \<noteq> [] then rel_sourceUrl item else rel_targetUrl item)\<rparr>"

definition chat_error :: "services \<Rightarrow> failure \<Rightarrow> response" where
  "chat_error sv e =
     \<lparr>status = 500,
      body = ErrorBody ''Sorry, I'm having trouble finding that information. Please try again later.''
               (if development sv then Some (case e of Failure msg \<Rightarrow> msg) else None)\<rparr>"

definition retrieve :: "services \<Rightarrow> string \<Rightarrow> failure + snippet list \<times> relation list" where
  "retrieve sv q =
     (case search sv q of
        Inl e \<Rightarrow> Inl e
      | Inr hits \<Rightarrow>
          Inr (map snippet_of hits,
               queryRelatedConcepts (similarity sv) (graph_down sv) q (graph_store sv)))"

text \<open>
  The handler, from its first line; \<open>answer\<close> is its part after the retrieval: the
  context string, the call of the language model and \<^verbatim>\<open>res.json\<close>. \<^verbatim>\<open>const { message, userId } = req.body\<close> stands
  before the \<^verbatim>\<open>try\<close>: on a request whose body is \<^verbatim>\<open>undefined\<close> it raises a
  \<^verbatim>\<open>TypeError\<close> that nothing in the handler catches, and the handler writes no
  response. \<^verbatim>\<open>userId\<close> is not read again.
\<close>

definition answer :: "services \<Rightarrow> string \<Rightarrow> snippet list \<Rightarrow> relation list \<Rightarrow> response" where
  "answer sv m searchContent graphData =
     (let context = join [CHR 0x0A, CHR 0x0A]
            (map snippet_line searchContent @ map relation_line graphData)
      in case completion sv
           (''Question: '' @ m @ [CHR 0x0A, CHR 0x0A] @ ''Context:'' @ [CHR 0x0A] @ context) of
           Inl e \<Rightarrow> chat_error sv e
         | Inr content \<Rightarrow>
             \<lparr>status = 200,
              body = Answer content
                (map snippet_source searchContent @ map relation_source graphData)\<rparr>)"

definition chat :: "services \<Rightarrow> request_body option \<Rightarrow> outcome" where
  "chat sv req_body =
     (case req_body of
        None \<Rightarrow> Rejected (Failure ''TypeError: Cannot destructure property message of req.body'')
      | Some b \<Rightarrow>
          (case message b of
             None \<Rightarrow> Responded \<lparr>status = 400, body = ErrorBody ''Message is required'' None\<rparr>
           | Some m \<Rightarrow>
               if m = [] then Responded \<lparr>status = 400, body = ErrorBody ''Message is required'' None\<rparr>
               else
                 (case retrieve sv m of
                    Inl e \<Rightarrow> Responded (chat_error sv e)
                  | Inr (searchContent, graphData) \<Rightarrow> Responded (answer sv m searchContent graphData))))"













lemma chat_without_body:
  "chat sv None = Rejected (Failure ''TypeError: Cannot destructure property message of req.body'')"
  by (simp add: chat_def)







section \<open>The crawler\<close>

text \<open>
  The browser is the crawler's collaborator. For a url it says whether navigation
  succeeds and what \<^verbatim>\<open>page.content()\<close> then returns, whether the awaited selector
  appears, which document the extraction script then sees, and which \<^verbatim>\<open>href\<close>s the
  link script of the main loop returns afterwards; a failure is an \<open>Inl\<close>. It also
  carries two functions of the JavaScript engine: the order \<^verbatim>\<open>Array.prototype.sort\<close>
  leaves the links in under the comparator of \<^verbatim>\<open>prioritizeLinks\<close> (that comparator is
  not an order, so the result is the engine's choice) and \<^verbatim>\<open>new URL(link).toString()\<close>,
  which raises on a string that is no url.
\<close>

record element =
  el_tag :: string
  el_textContent :: string

record image =
  img_src :: string
  img_alt :: string
  img_resolved :: string

record anchor =
  a_href :: string
  a_textContent :: string

record dom =
  elements :: "element list"
  images :: "image list"
  anchors :: "anchor list"

record browser =
  goto :: "string \<Rightarrow> failure + string"
  selector_appears :: "string \<Rightarrow> bool"
  document :: "string \<Rightarrow> failure + dom"
  hrefs :: "string \<Rightarrow> failure + string list"
  sort_links :: "string list \<Rightarrow> string list"
  url_toString :: "string \<Rightarrow> failure + string"

datatype crawl_line = Crawling nat string | ErrorExtracting string | ErrorProcessing string

text \<open>
  The state of one run of \<^verbatim>\<open>scrapeWebsite\<close>. \<open>visitedUrls\<close> is the \<^verbatim>\<open>Set\<close>, kept in
  insertion order and without repetition, so that its \<^verbatim>\<open>size\<close> is its length.
  \<open>navigated\<close> lists the urls the run's one \<^verbatim>\<open>page\<close> was sent to with \<^verbatim>\<open>page.goto\<close>, in
  order: the page is shared by \<^verbatim>\<open>extractPageContent\<close> and the main loop, whose link
  script reads whatever the page was last sent to.
\<close>

record crawl =
  queue :: "string list"
  visitedUrls :: "string list"
  scrapedData :: "content_item list"
  crawl_console :: "crawl_line list"
  navigated :: "string list"

definition BASE_URL :: string where
  "BASE_URL = ''https://www.madewithnestle.ca''"

definition MAX_PAGES :: nat where
  "MAX_PAGES = 950"

definition set_add :: "'a \<Rightarrow> 'a list \<Rightarrow> 'a list" where
  "set_add x xs = (if x \<in> set xs then xs else xs @ [x])"

definition shouldCrawl :: "string list \<Rightarrow> string \<Rightarrow> bool" where
  "shouldCrawl visited u =
     (let isFilterPage = (includes_str u ''recipes?f%5B'' \<or> includes_str u ''recipe_tags_filter'')
      in startsWith u BASE_URL \<and>
         \<not> isFilterPage \<and>
         \<not> includes_str u ''#'' \<and>
         \<not> includes_str u ''facebook.com'' \<and>
         \<not> includes_str u ''twitter.com'' \<and>
         u \<notin> set visited)"

definition is_space :: "char \<Rightarrow> bool" where
  "is_space c = ((of_char c :: nat) \<in> {9, 10, 11, 12, 13, 32, 160})"

definition trim :: "string \<Rightarrow> string" where
  "trim s = rev (dropWhile is_space (rev (dropWhile is_space s)))"

definition page_object :: "string \<Rightarrow> string \<Rightarrow> content_item" where
  "page_object u h = \<lparr>item_type = JUndefined, item_text = JUndefined, item_url = u, item_html = JStr h\<rparr>"

definition data_item :: "string \<Rightarrow> string \<Rightarrow> string \<Rightarrow> content_item" where
  "data_item ty t u = \<lparr>item_type = JStr ty, item_text = JStr t, item_url = u, item_html = JUndefined\<rparr>"

definition selectors :: "string list" where
  "selectors = [''h1'', ''h2'', ''h3'', ''h4'', ''p'', ''li'', ''span'']"

text \<open>
  The script that \<^verbatim>\<open>extractPageContent\<close> evaluates in the page: the texts of the
  selected elements, the images, the links, and the final filter on all three.
\<close>

definition text_items :: "string \<Rightarrow> dom \<Rightarrow> content_item list" where
  "text_items currentUrl d =
     concat (map (\<lambda>selector.
         [data_item selector (trim (el_textContent el)) currentUrl.
            el \<leftarrow> elements d, el_tag el = selector,
            trim (el_textContent el) \<noteq> [] \<and> 10 < length (trim (el_textContent el))])
       selectors)"

definition image_items :: "dom \<Rightarrow> content_item list" where
  "image_items d =
     [data_item ''image'' (take 200 (img_alt el))
        (if startsWith (img_src el) ''http'' then img_src el else img_resolved el).
        el \<leftarrow> images d, img_src el \<noteq> []]"

definition link_items :: "dom \<Rightarrow> content_item list" where
  "link_items d =
     [data_item ''link''
        (if trim (a_textContent el) \<noteq> [] then trim (a_textContent el) else take 200 (a_href el))
        (a_href el).
        el \<leftarrow> anchors d, a_href el \<noteq> [] \<and> startsWith (a_href el) ''http'']"

definition extract_items :: "string \<Rightarrow> dom \<Rightarrow> content_item list" where
  "extract_items currentUrl d =
     filter (\<lambda>item. truthy (item_text item) \<and> item_url item \<noteq> [])
       (text_items currentUrl d @ image_items d @ link_items d)"

definition extractPageContent :: "browser \<Rightarrow> string \<Rightarrow> crawl \<Rightarrow> content_item list \<times> crawl" where
  "extractPageContent br u st =
     (let st0 = st\<lparr>navigated := navigated st @ [u]\<rparr>
      in case goto br u of
           Inl e \<Rightarrow> ([], st0\<lparr>crawl_console := crawl_console st0 @ [ErrorExtracting u]\<rparr>)
         | Inr pageContent \<Rightarrow>
             (let st1 = st0\<lparr>scrapedData := scrapedData st0 @ [page_object u pageContent]\<rparr>
              in if includes_str u ''/recipe/'' \<and> \<not> selector_appears br u
                 then ([], st1\<lparr>crawl_console := crawl_console st1 @ [ErrorExtracting u]\<rparr>)
                 else (case document br u of
                         Inl e \<Rightarrow> ([], st1\<lparr>crawl_console := crawl_console st1 @ [ErrorExtracting u]\<rparr>)
                       | Inr d \<Rightarrow> (extract_items u d, st1))))"

text \<open>
  The \<^verbatim>\<open>forEach\<close> over the prioritised links; a raise of \<^verbatim>\<open>new URL(link)\<close> leaves the
  loop for the \<^verbatim>\<open>catch\<close> of the main loop's body.
\<close>

fun enqueue_links :: "browser \<Rightarrow> string \<Rightarrow> string list \<Rightarrow> crawl \<Rightarrow> crawl" where
  "enqueue_links br cur [] st = st"
| "enqueue_links br cur (link # links) st =
     (if shouldCrawl (visitedUrls st) link
      then (case url_toString br link of
              Inl e \<Rightarrow> st\<lparr>crawl_console := crawl_console st @ [ErrorProcessing cur]\<rparr>
            | Inr normalizedLink \<Rightarrow>
                enqueue_links br cur links
                  (if normalizedLink \<in> set (queue st) then st
                   else st\<lparr>queue := queue st @ [normalizedLink]\<rparr>))
      else enqueue_links br cur links st)"

text \<open>One turn of the main loop, entered with a non-empty queue.\<close>

definition crawl_step :: "browser \<Rightarrow> crawl \<Rightarrow> crawl" where
  "crawl_step br st =
     (let currentUrl = hd (queue st);
          st1 = st\<lparr>queue := tl (queue st)\<rparr>
      in if \<not> shouldCrawl (visitedUrls st1) currentUrl then st1
         else
           (let st2 = st1\<lparr>crawl_console := crawl_console st1 @
                          [Crawling (length (visitedUrls st1) + 1) currentUrl],
                        visitedUrls := set_add currentUrl (visitedUrls st1)\<rparr>;
                (pageData, st3) = extractPageContent br currentUrl st2;
                st4 = (if pageData \<noteq> [] then st3\<lparr>scrapedData := scrapedData st3 @ pageData\<rparr> else st3)
            in case hrefs br currentUrl of
                 Inl e \<Rightarrow> st4\<lparr>crawl_console := crawl_console st4 @ [ErrorProcessing currentUrl]\<rparr>
               | Inr links \<Rightarrow>
                   enqueue_links br currentUrl (sort_links br (filter (\<lambda>href. href \<noteq> []) links)) st4))"

definition running :: "crawl \<Rightarrow> bool" where
  "running st = (queue st \<noteq> [] \<and> length (visitedUrls st) < MAX_PAGES)"

lemma extractPageContent_frontier:
  "queue (snd (extractPageContent br u st)) = queue st \<and>
   visitedUrls (snd (extractPageContent br u st)) = visitedUrls st"
  by (simp add: extractPageContent_def Let_def split: sum.splits)

lemma enqueue_links_visited: "visitedUrls (enqueue_links br cur links st) = visitedUrls st"
  by (induction links arbitrary: st) (auto split: sum.splits)

lemma crawl_step_visited:
  "visitedUrls (crawl_step br st) =
     (if shouldCrawl (visitedUrls st) (hd (queue st)) then visitedUrls st @ [hd (queue st)]
      else visitedUrls st)"
proof (cases "shouldCrawl (visitedUrls st) (hd (queue st))")
  case True
  let ?u = "hd (queue st)"
  let ?st2 = "st\<lparr>queue := tl (queue st),
         crawl_console := crawl_console st @ [Crawling (Suc (length (visitedUrls st))) ?u],
         visitedUrls := set_add ?u (visitedUrls st)\<rparr>"
  obtain pageData st3 where e: "extractPageContent br ?u ?st2 = (pageData, st3)"
    by (cases "extractPageContent br ?u ?st2")
  from True have "?u \<notin> set (visitedUrls st)" by (simp add: shouldCrawl_def Let_def)
  then have "visitedUrls ?st2 = visitedUrls st @ [?u]" by (simp add: set_add_def)
  with extractPageContent_frontier [of br ?u ?st2] e
  have v: "visitedUrls st3 = visitedUrls st @ [?u]" by simp
  show ?thesis
    using True v
    by (simp add: crawl_step_def Let_def e enqueue_links_visited split: sum.splits)
next
  case False
  then show ?thesis by (simp add: crawl_step_def Let_def)
qed

lemma crawl_step_skip:
  "\<not> shouldCrawl (visitedUrls st) (hd (queue st)) \<Longrightarrow> queue (crawl_step br st) = tl (queue st)"
  by (simp add: crawl_step_def Let_def)

text \<open>\<^verbatim>\<open>while (queue.length > 0 && visitedUrls.size < MAX_PAGES) { ... }\<close>\<close>

function crawl_loop :: "browser \<Rightarrow> crawl \<Rightarrow> crawl" where
  "crawl_loop br st = (if running st then crawl_loop br (crawl_step br st) else st)"
  by pat_completeness auto
termination
proof (relation "measures [\<lambda>(br, st). MAX_PAGES - length (visitedUrls st), \<lambda>(br, st). length (queue st)]")
  show "wf (measures [\<lambda>(br, st). MAX_PAGES - length (visitedUrls st), \<lambda>(br, st). length (queue st)])"
    by simp
next
  fix br st assume r: "running st"
  show "((br, crawl_step br st), (br, st)) \<in>
      measures [\<lambda>(br, st). MAX_PAGES - length (visitedUrls st), \<lambda>(br, st). length (queue st)]"
  proof (cases "shouldCrawl (visitedUrls st) (hd (queue st))")
    case True
    with r have "length (visitedUrls (crawl_step br st)) = Suc (length (visitedUrls st))"
      and "length (visitedUrls st) < MAX_PAGES"
      by (simp_all add: crawl_step_visited running_def)
    then have "MAX_PAGES - length (visitedUrls (crawl_step br st)) < MAX_PAGES - length (visitedUrls st)"
      by linarith
    then show ?thesis by simp
  next
    case False
    with r have "visitedUrls (crawl_step br st) = visitedUrls st"
      and "length (queue (crawl_step br st)) < length (queue st)"
      by (simp_all add: crawl_step_visited crawl_step_skip running_def)
    then show ?thesis by simp
  qed
qed

declare crawl_loop.simps [simp del]

definition crawl_start :: crawl where
  "crawl_start = \<lparr>queue = [BASE_URL], visitedUrls = [], scrapedData = [], crawl_console = [],
     navigated = []\<rparr>"

definition guarded_step :: "browser \<Rightarrow> crawl \<Rightarrow> crawl" where
  "guarded_step br st = (if running st then crawl_step br st else st)"

text \<open>The state after \<open>n\<close> turns of the loop (the final state, once the loop has ended).\<close>

definition crawl_iter :: "browser \<Rightarrow> nat \<Rightarrow> crawl" where
  "crawl_iter br n = (guarded_step br ^^ n) crawl_start"



section \<open>Invariants of a crawl run\<close>

text \<open>The urls the loop announced on the console with \<^verbatim>\<open>Crawling (k/950): url\<close>, in order.\<close>

fun crawled_urls :: "crawl_line list \<Rightarrow> string list" where
  "crawled_urls [] = []"
| "crawled_urls (Crawling k u # ls) = u # crawled_urls ls"
| "crawled_urls (l # ls) = crawled_urls ls"

text \<open>A small site, and a state in which 950 pages have been visited.\<close>

definition site_goto :: "string \<Rightarrow> failure + string" where
  "site_goto u = Inr ''<h2>Fun Facts about cocoa</h2>''"

definition cocoa_heading :: element where
  "cocoa_heading = \<lparr>el_tag = ''h2'', el_textContent = '' Fun Facts about cocoa ''\<rparr>"

definition site_dom :: dom where
  "site_dom =
     \<lparr>elements = [cocoa_heading, \<lparr>el_tag = ''p'', el_textContent = ''Too short''\<rparr>],
      images = [],
      anchors = [\<lparr>a_href = BASE_URL @ ''/recipe/fudge'', a_textContent = ''Fudge''\<rparr>]\<rparr>"

definition site_document :: "string \<Rightarrow> failure + dom" where
  "site_document u = Inr site_dom"

definition site_hrefs :: "string \<Rightarrow> failure + string list" where
  "site_hrefs u = Inr [BASE_URL @ ''/recipe/fudge'', BASE_URL, ''https://www.facebook.com/nestle'']"

definition site :: browser where
  "site = \<lparr>goto = site_goto, selector_appears = (\<lambda>u. True), document = site_document,
     hrefs = site_hrefs, sort_links = (\<lambda>links. links), url_toString = Inr\<rparr>"

definition full_state :: crawl where
  "full_state = \<lparr>queue = [BASE_URL @ ''/recipe/fudge''],
     visitedUrls = map (\<lambda>k. BASE_URL @ ''/'' @ replicate k (CHR ''a'')) [0..<950],
     scrapedData = [], crawl_console = [], navigated = []\<rparr>"

lemma crawled_urls_append: "crawled_urls (xs @ ys) = crawled_urls xs @ crawled_urls ys"
  by (induction xs rule: crawled_urls.induct) simp_all

lemma extractPageContent_crawled:
  "crawled_urls (crawl_console (snd (extractPageContent br u st))) = crawled_urls (crawl_console st)"
  by (simp add: extractPageContent_def Let_def crawled_urls_append split: sum.splits)

lemma enqueue_links_crawled:
  "crawled_urls (crawl_console (enqueue_links br cur links st)) = crawled_urls (crawl_console st)"
  by (induction links arbitrary: st) (auto simp: crawled_urls_append split: sum.splits)

lemma crawl_step_crawled:
  "crawled_urls (crawl_console (crawl_step br st)) =
     (if shouldCrawl (visitedUrls st) (hd (queue st))
      then crawled_urls (crawl_console st) @ [hd (queue st)]
      else crawled_urls (crawl_console st))"
proof (cases "shouldCrawl (visitedUrls st) (hd (queue st))")
  case True
  let ?u = "hd (queue st)"
  let ?st2 = "st\<lparr>queue := tl (queue st),
         crawl_console := crawl_console st @ [Crawling (Suc (length (visitedUrls st))) ?u],
         visitedUrls := set_add ?u (visitedUrls st)\<rparr>"
  obtain pageData st3 where e: "extractPageContent br ?u ?st2 = (pageData, st3)"
    by (cases "extractPageContent br ?u ?st2")
  with extractPageContent_crawled [of br ?u ?st2]
  have v: "crawled_urls (crawl_console st3) = crawled_urls (crawl_console st) @ [?u]"
    by (simp add: crawled_urls_append)
  show ?thesis
    using True v
    by (simp add: crawl_step_def Let_def e enqueue_links_crawled crawled_urls_append split: sum.splits)
next
  case False
  then show ?thesis by (simp add: crawl_step_def Let_def)
qed

lemma visited_not_admitted: "u \<in> set visited \<Longrightarrow> \<not> shouldCrawl visited u"
  by (simp add: shouldCrawl_def Let_def)

definition crawl_inv :: "crawl \<Rightarrow> bool" where
  "crawl_inv st = (crawled_urls (crawl_console st) = visitedUrls st \<and> distinct (visitedUrls st) \<and>
     length (visitedUrls st) \<le> MAX_PAGES)"

lemma guarded_step_inv: "crawl_inv st \<Longrightarrow> crawl_inv (guarded_step br st)"
proof (cases "running st \<and> shouldCrawl (visitedUrls st) (hd (queue st))")
  case True
  assume i: "crawl_inv st"
  from True have "hd (queue st) \<notin> set (visitedUrls st)" using visited_not_admitted by blast
  moreover from True have "length (visitedUrls st) < MAX_PAGES" by (simp add: running_def)
  ultimately show ?thesis
    using True i by (simp add: guarded_step_def crawl_inv_def crawl_step_visited crawl_step_crawled)
next
  case False
  assume "crawl_inv st"
  with False show ?thesis
    by (auto simp: guarded_step_def crawl_inv_def crawl_step_visited crawl_step_crawled)
qed

lemma crawl_iter_Suc: "crawl_iter br (Suc n) = guarded_step br (crawl_iter br n)"
  by (simp add: crawl_iter_def)

lemma crawl_inv_start: "crawl_inv crawl_start"
  by (simp add: crawl_inv_def crawl_start_def)

lemma crawl_iter_inv: "crawl_inv (crawl_iter br n)"
proof (induction n)
  case 0
  show ?case by (simp add: crawl_iter_def crawl_inv_start)
next
  case (Suc n)
  then show ?case by (simp only: crawl_iter_Suc guarded_step_inv)
qed

lemma guarded_step_grows: "set (visitedUrls st) \<subseteq> set (visitedUrls (guarded_step br st))"
  by (auto simp: guarded_step_def crawl_step_visited)

lemma crawl_iter_grows: "set (visitedUrls (crawl_iter br n)) \<subseteq> set (visitedUrls (crawl_iter br (n + k)))"
proof (induction k)
  case 0
  show ?case by simp
next
  case (Suc k)
  have "set (visitedUrls (crawl_iter br (n + k))) \<subseteq> set (visitedUrls (crawl_iter br (Suc (n + k))))"
    by (simp only: crawl_iter_Suc guarded_step_grows)
  with Suc show ?case by simp
qed

lemma crawl_loop_iterates:
  "\<exists>n. crawl_loop br st = (guarded_step br ^^ n) st \<and> \<not> running ((guarded_step br ^^ n) st)"
proof (induction br st rule: crawl_loop.induct)
  case (1 br st)
  show ?case
  proof (cases "running st")
    case True
    with 1 obtain n where n: "crawl_loop br (crawl_step br st) = (guarded_step br ^^ n) (crawl_step br st)"
      "\<not> running ((guarded_step br ^^ n) (crawl_step br st))"
      by blast
    from True have g: "guarded_step br st = crawl_step br st" by (simp add: guarded_step_def)
    have "(guarded_step br ^^ Suc n) st = (guarded_step br ^^ n) (guarded_step br st)"
      by (simp only: funpow_Suc_right comp_apply)
    with n g True have "crawl_loop br st = (guarded_step br ^^ Suc n) st \<and>
        \<not> running ((guarded_step br ^^ Suc n) st)"
      by (subst crawl_loop.simps) simp
    then show ?thesis by (rule exI)
  next
    case False
    then have "crawl_loop br st = (guarded_step br ^^ 0) st \<and> \<not> running ((guarded_step br ^^ 0) st)"
      by (subst crawl_loop.simps) simp
    then show ?thesis by (rule exI)
  qed
qed

lemma crawl_loop_is_iterate:
  "\<exists>n. crawl_loop br crawl_start = crawl_iter br n \<and> \<not> running (crawl_iter br n)"
  using crawl_loop_iterates [of br crawl_start] by (simp add: crawl_iter_def)

lemma crawl_loop_at_ceiling: "MAX_PAGES \<le> length (visitedUrls st) \<Longrightarrow> crawl_loop br st = st"
  by (subst crawl_loop.simps) (simp add: running_def)

lemma crawl_loop_visited_bound: "length (visitedUrls (crawl_loop br crawl_start)) \<le> MAX_PAGES"
proof -
  obtain n where "crawl_loop br crawl_start = crawl_iter br n"
    using crawl_loop_is_iterate by blast
  with crawl_iter_inv [of br n] show ?thesis by (simp add: crawl_inv_def)
qed

text \<open>
  Claim C4. In every state of a crawl run the visited set has at most \<open>MAX_PAGES\<close>
  elements, and so it has when the loop has ended; in a state whose visited set has
  reached \<open>MAX_PAGES\<close> the loop ends at once and changes nothing, whatever is left in
  the queue.
\<close>

theorem visited_never_exceeds_max_pages:
  "length (visitedUrls (crawl_iter br n)) \<le> MAX_PAGES \<and>
   length (visitedUrls (crawl_loop br crawl_start)) \<le> MAX_PAGES \<and>
   (length (visitedUrls st) = MAX_PAGES \<longrightarrow> crawl_loop br st = st)"
  using crawl_iter_inv [of br n] crawl_loop_visited_bound [of br] crawl_loop_at_ceiling [of st br]
  by (simp add: crawl_inv_def)

lemma full_state_length: "length (visitedUrls full_state) = MAX_PAGES"
  by (simp add: full_state_def MAX_PAGES_def)

theorem visited_never_exceeds_max_pages_witness:
  "length (visitedUrls full_state) = MAX_PAGES \<and> queue full_state \<noteq> [] \<and>
   crawl_loop site full_state = full_state \<and>
   length (visitedUrls (crawl_iter site 2)) \<le> MAX_PAGES"
  using visited_never_exceeds_max_pages [of site 2 full_state] full_state_length
  by (simp add: full_state_def)

lemma site_iter2:
  "visitedUrls (crawl_iter site 2) = [BASE_URL, BASE_URL @ ''/recipe/fudge''] \<and>
   queue (crawl_iter site 2) = [] \<and>
   visitedUrls (crawl_iter site 1) = [BASE_URL] \<and>
   queue (crawl_iter site 1) = [BASE_URL @ ''/recipe/fudge'']"
  by code_simp

text \<open>
  Claim C9. A url that is in the visited set stays in it for the rest of the run and is
  refused by \<open>shouldCrawl\<close> from then on; the urls the loop has processed (those it
  logged as crawled) are the visited set, each of them once.
\<close>

theorem no_url_visited_twice:
  "(u \<in> set (visitedUrls (crawl_iter br n)) \<longrightarrow>
      u \<in> set (visitedUrls (crawl_iter br (n + k))) \<and>
      \<not> shouldCrawl (visitedUrls (crawl_iter br (n + k))) u) \<and>
   crawled_urls (crawl_console (crawl_iter br n)) = visitedUrls (crawl_iter br n) \<and>
   distinct (crawled_urls (crawl_console (crawl_iter br n)))"
  using crawl_iter_grows [of br n k] crawl_iter_inv [of br n] visited_not_admitted
  by (auto simp: crawl_inv_def)

theorem no_url_visited_twice_witness:
  "BASE_URL \<in> set (visitedUrls (crawl_iter site 1)) \<and>
   \<not> shouldCrawl (visitedUrls (crawl_iter site 2)) BASE_URL \<and>
   crawled_urls (crawl_console (crawl_iter site 2)) = [BASE_URL, BASE_URL @ ''/recipe/fudge'']"
  using no_url_visited_twice [of BASE_URL site 1 1] no_url_visited_twice [of BASE_URL site 2 0] site_iter2
  by (simp add: numeral_2_eq_2)

text \<open>The items the page script returns, read off the document.\<close>

definition text_item_of :: "string \<Rightarrow> element \<Rightarrow> content_item" where
  "text_item_of u el = data_item (el_tag el) (trim (el_textContent el)) u"

definition image_item_of :: "image \<Rightarrow> content_item" where
  "image_item_of im = data_item ''image'' (take 200 (img_alt im))
     (if startsWith (img_src im) ''http'' then img_src im else img_resolved im)"

definition link_item_of :: "anchor \<Rightarrow> content_item" where
  "link_item_of a = data_item ''link''
     (if trim (a_textContent a) \<noteq> [] then trim (a_textContent a) else take 200 (a_href a)) (a_href a)"

lemma http_not_empty: "startsWith s ''http'' \<Longrightarrow> s \<noteq> []"
  by (auto simp: startsWith_def)

lemma in_concat_map: "s \<in> set ss \<Longrightarrow> x \<in> set (f s) \<Longrightarrow> x \<in> set (concat (map f ss))"
  by auto

lemma set_text_items:
  "set (text_items u d) =
     {text_item_of u el | el. el \<in> set (elements d) \<and> el_tag el \<in> set selectors \<and>
        10 < length (trim (el_textContent el))}"
proof (intro set_eqI iffI)
  fix x assume "x \<in> set (text_items u d)"
  then show "x \<in> {text_item_of u el | el. el \<in> set (elements d) \<and> el_tag el \<in> set selectors \<and>
        10 < length (trim (el_textContent el))}"
    by (auto simp: text_items_def text_item_of_def)
next
  fix x assume "x \<in> {text_item_of u el | el. el \<in> set (elements d) \<and> el_tag el \<in> set selectors \<and>
        10 < length (trim (el_textContent el))}"
  then obtain el where el: "x = text_item_of u el" "el \<in> set (elements d)" "el_tag el \<in> set selectors"
    "10 < length (trim (el_textContent el))" by blast
  from el(4) have "trim (el_textContent el) \<noteq> []" by auto
  with el have "x \<in> set ((\<lambda>selector.
      [data_item selector (trim (el_textContent ela)) u.
         ela \<leftarrow> elements d, el_tag ela = selector,
         trim (el_textContent ela) \<noteq> [] \<and> 10 < length (trim (el_textContent ela))]) (el_tag el))"
    by (force simp: text_item_of_def)
  with el(3) show "x \<in> set (text_items u d)"
    unfolding text_items_def by (rule in_concat_map)
qed

lemma set_image_items:
  "set (image_items d) = {image_item_of im | im. im \<in> set (images d) \<and> img_src im \<noteq> []}"
  by (auto simp: image_items_def image_item_of_def)

lemma set_link_items:
  "set (link_items d) = {link_item_of a | a. a \<in> set (anchors d) \<and> startsWith (a_href a) ''http''}"
  by (auto simp: link_items_def link_item_of_def dest: http_not_empty)

lemma text_item_kept:
  "10 < length (trim (el_textContent el)) \<Longrightarrow>
   (truthy (item_text (text_item_of u el)) \<and> item_url (text_item_of u el) \<noteq> []) = (u \<noteq> [])"
  by (auto simp: text_item_of_def data_item_def)

lemma image_item_kept:
  "(truthy (item_text (image_item_of im)) \<and> item_url (image_item_of im) \<noteq> []) =
   (img_alt im \<noteq> [] \<and> item_url (image_item_of im) \<noteq> [])"
  by (auto simp: image_item_of_def data_item_def)

lemma link_item_kept:
  "startsWith (a_href a) ''http'' \<Longrightarrow>
   truthy (item_text (link_item_of a)) \<and> item_url (link_item_of a) \<noteq> []"
  by (auto simp: link_item_of_def data_item_def dest: http_not_empty)

lemma set_extract_items:
  "set (extract_items u d) =
     {text_item_of u el | el. el \<in> set (elements d) \<and> el_tag el \<in> set selectors \<and>
        10 < length (trim (el_textContent el)) \<and> u \<noteq> []} \<union>
     {image_item_of im | im. im \<in> set (images d) \<and> img_src im \<noteq> [] \<and> img_alt im \<noteq> [] \<and>
        item_url (image_item_of im) \<noteq> []} \<union>
     {link_item_of a | a. a \<in> set (anchors d) \<and> startsWith (a_href a) ''http''}"
  (is "?l = ?t \<union> ?i \<union> ?a")
proof -
  let ?P = "\<lambda>item. truthy (item_text item) \<and> item_url item \<noteq> []"
  have l: "?l = {x \<in> set (text_items u d). ?P x} \<union> {x \<in> set (image_items d). ?P x} \<union>
      {x \<in> set (link_items d). ?P x}"
    by (auto simp: extract_items_def)
  have t: "{x \<in> set (text_items u d). ?P x} = ?t"
    unfolding set_text_items using text_item_kept by blast
  have i: "{x \<in> set (image_items d). ?P x} = ?i"
    unfolding set_image_items using image_item_kept by blast
  have a: "{x \<in> set (link_items d). ?P x} = ?a"
    unfolding set_link_items using link_item_kept by blast
  show ?thesis by (simp only: l t i a)
qed

lemma extractPageContent_result:
  "fst (extractPageContent br u st) =
     (if isl (goto br u) \<or> (includes_str u ''/recipe/'' \<and> \<not> selector_appears br u) then []
      else case document br u of Inl e \<Rightarrow> [] | Inr d \<Rightarrow> extract_items u d)"
  by (simp add: extractPageContent_def Let_def split: sum.splits)

lemma extractPageContent_state:
  "snd (extractPageContent br u st) =
     st\<lparr>navigated := navigated st @ [u],
        scrapedData := scrapedData st @ (case goto br u of Inl e \<Rightarrow> [] | Inr h \<Rightarrow> [page_object u h]),
        crawl_console := crawl_console st @
          (if isl (goto br u) \<or> (includes_str u ''/recipe/'' \<and> \<not> selector_appears br u) \<or>
              isl (document br u)
           then [ErrorExtracting u] else [])\<rparr>"
  by (simp add: extractPageContent_def Let_def split: sum.splits)

text \<open>
  Claim C8, as the code has it. \<^verbatim>\<open>extractPageContent\<close> returns the items its page
  script finds in the document, and the empty list when navigation, the awaited
  selector or the script fails. It changes neither the queue nor the visited set. Of
  the run's state it changes three things: it sends the run's shared page to the url;
  once the page has loaded it appends the object \<^verbatim>\<open>{url, html}\<close> to \<^verbatim>\<open>scrapedData\<close>,
  whatever happens afterwards; and on a failure it logs one error.
\<close>

theorem extractPageContent_effect:
  "fst (extractPageContent br u st) =
     (if isl (goto br u) \<or> (includes_str u ''/recipe/'' \<and> \<not> selector_appears br u) then []
      else case document br u of Inl e \<Rightarrow> [] | Inr d \<Rightarrow> extract_items u d) \<and>
   snd (extractPageContent br u st) =
     st\<lparr>navigated := navigated st @ [u],
        scrapedData := scrapedData st @ (case goto br u of Inl e \<Rightarrow> [] | Inr h \<Rightarrow> [page_object u h]),
        crawl_console := crawl_console st @
          (if isl (goto br u) \<or> (includes_str u ''/recipe/'' \<and> \<not> selector_appears br u) \<or>
              isl (document br u)
           then [ErrorExtracting u] else [])\<rparr> \<and>
   queue (snd (extractPageContent br u st)) = queue st \<and>
   visitedUrls (snd (extractPageContent br u st)) = visitedUrls st \<and>
   set (extract_items u d) =
     {text_item_of u el | el. el \<in> set (elements d) \<and> el_tag el \<in> set selectors \<and>
        10 < length (trim (el_textContent el)) \<and> u \<noteq> []} \<union>
     {image_item_of im | im. im \<in> set (images d) \<and> img_src im \<noteq> [] \<and> img_alt im \<noteq> [] \<and>
        item_url (image_item_of im) \<noteq> []} \<union>
     {link_item_of a | a. a \<in> set (anchors d) \<and> startsWith (a_href a) ''http''}"
  using extractPageContent_result [of br u st] extractPageContent_state [of br u st]
    extractPageContent_frontier [of br u st] set_extract_items [of u d]
  by (intro conjI) simp_all

definition offline_goto :: "string \<Rightarrow> failure + string" where
  "offline_goto u = Inl (Failure ''net::ERR_INTERNET_DISCONNECTED'')"

definition offline :: browser where
  "offline = site\<lparr>goto := offline_goto\<rparr>"

definition slow_recipes :: browser where
  "slow_recipes = site\<lparr>selector_appears := (\<lambda>u. False)\<rparr>"

lemma site_items:
  "(case document site BASE_URL of Inl e \<Rightarrow> [] | Inr d \<Rightarrow> extract_items BASE_URL d) =
     [data_item ''h2'' ''Fun Facts about cocoa'' BASE_URL,
      data_item ''link'' ''Fudge'' (BASE_URL @ ''/recipe/fudge'')]"
  by code_simp

lemma site_loads: "\<not> isl (goto site BASE_URL) \<and> \<not> includes_str BASE_URL ''/recipe/''"
  by code_simp

lemma recipe_url: "includes_str (BASE_URL @ ''/recipe/fudge'') ''/recipe/''"
  by code_simp

lemma cocoa_heading_kept:
  "cocoa_heading \<in> set (elements site_dom) \<and> el_tag cocoa_heading \<in> set selectors \<and>
   10 < length (trim (el_textContent cocoa_heading)) \<and> BASE_URL \<noteq> []"
  by code_simp

lemma cocoa_heading_item:
  "text_item_of BASE_URL cocoa_heading = data_item ''h2'' ''Fun Facts about cocoa'' BASE_URL"
  by code_simp

theorem extractPageContent_effect_witness:
  "fst (extractPageContent site BASE_URL crawl_start) =
     [data_item ''h2'' ''Fun Facts about cocoa'' BASE_URL,
      data_item ''link'' ''Fudge'' (BASE_URL @ ''/recipe/fudge'')] \<and>
   queue (snd (extractPageContent site BASE_URL crawl_start)) = [BASE_URL] \<and>
   visitedUrls (snd (extractPageContent site BASE_URL crawl_start)) = [] \<and>
   fst (extractPageContent offline BASE_URL crawl_start) = [] \<and>
   snd (extractPageContent offline BASE_URL crawl_start) =
     crawl_start\<lparr>navigated := [BASE_URL], scrapedData := [],
       crawl_console := [ErrorExtracting BASE_URL]\<rparr> \<and>
   fst (extractPageContent slow_recipes (BASE_URL @ ''/recipe/fudge'') crawl_start) = [] \<and>
   scrapedData (snd (extractPageContent slow_recipes (BASE_URL @ ''/recipe/fudge'') crawl_start)) =
     [page_object (BASE_URL @ ''/recipe/fudge'') ''<h2>Fun Facts about cocoa</h2>''] \<and>
   data_item ''h2'' ''Fun Facts about cocoa'' BASE_URL \<in> set (extract_items BASE_URL site_dom)"
proof -
  note s = extractPageContent_effect [of site BASE_URL crawl_start site_dom]
  note f = extractPageContent_effect [of offline BASE_URL crawl_start site_dom]
  note r = extractPageContent_effect [of slow_recipes "BASE_URL @ ''/recipe/fudge''" crawl_start site_dom]
  from s [THEN conjunct1] site_loads site_items
  have 1: "fst (extractPageContent site BASE_URL crawl_start) =
     [data_item ''h2'' ''Fun Facts about cocoa'' BASE_URL,
      data_item ''link'' ''Fudge'' (BASE_URL @ ''/recipe/fudge'')]"
    by simp
  from s have 2: "queue (snd (extractPageContent site BASE_URL crawl_start)) = [BASE_URL]"
    and 3: "visitedUrls (snd (extractPageContent site BASE_URL crawl_start)) = []"
    by (simp_all add: crawl_start_def)
  from f [THEN conjunct1] have 4: "fst (extractPageContent offline BASE_URL crawl_start) = []"
    by (simp add: offline_def offline_goto_def)
  from f [THEN conjunct2, THEN conjunct1]
  have 5: "snd (extractPageContent offline BASE_URL crawl_start) =
     crawl_start\<lparr>navigated := [BASE_URL], scrapedData := [],
       crawl_console := [ErrorExtracting BASE_URL]\<rparr>"
    by (simp add: offline_def offline_goto_def crawl_start_def)
  from r [THEN conjunct1] recipe_url
  have 6: "fst (extractPageContent slow_recipes (BASE_URL @ ''/recipe/fudge'') crawl_start) = []"
    by (simp add: slow_recipes_def)
  from r [THEN conjunct2, THEN conjunct1]
  have 7: "scrapedData (snd (extractPageContent slow_recipes (BASE_URL @ ''/recipe/fudge'') crawl_start)) =
     [page_object (BASE_URL @ ''/recipe/fudge'') ''<h2>Fun Facts about cocoa</h2>'']"
    by (simp add: slow_recipes_def site_def site_goto_def crawl_start_def)
  have "text_item_of BASE_URL cocoa_heading \<in>
      {text_item_of BASE_URL el | el. el \<in> set (elements site_dom) \<and> el_tag el \<in> set selectors \<and>
        10 < length (trim (el_textContent el)) \<and> BASE_URL \<noteq> []}"
    using cocoa_heading_kept by blast
  then have "text_item_of BASE_URL cocoa_heading \<in> set (extract_items BASE_URL site_dom)"
    unfolding s [THEN conjunct2, THEN conjunct2, THEN conjunct2, THEN conjunct2] by blast
  then have 8: "data_item ''h2'' ''Fun Facts about cocoa'' BASE_URL \<in> set (extract_items BASE_URL site_dom)"
    by (simp only: cocoa_heading_item)
  from 1 2 3 4 5 6 7 8 show ?thesis by blast
qed

text \<open>
  The claim as stated fails: on a page that loads, the state after the call is not the
  state before it. The page object is in \<^verbatim>\<open>scrapedData\<close> and the shared page has been
  sent to the url.
\<close>

theorem extractPageContent_pure_counterexample:
  "scrapedData crawl_start = [] \<and> navigated crawl_start = [] \<and>
   scrapedData (snd (extractPageContent site BASE_URL crawl_start)) =
     [page_object BASE_URL ''<h2>Fun Facts about cocoa</h2>''] \<and>
   navigated (snd (extractPageContent site BASE_URL crawl_start)) = [BASE_URL] \<and>
   fst (extractPageContent site BASE_URL crawl_start) =
     [data_item ''h2'' ''Fun Facts about cocoa'' BASE_URL,
      data_item ''link'' ''Fudge'' (BASE_URL @ ''/recipe/fudge'')]"
  by code_simp

section \<open>Publishing to the search index\<close>

text \<open>
  \<open>now k\<close> is what \<^verbatim>\<open>Date.now()\<close> returns when the document of index \<open>k\<close> is made;
  \<open>fails k\<close> says that the \<open>k\<close>-th call of \<^verbatim>\<open>uploadDocuments\<close> raises.
\<close>

record search_document =
  doc_action :: string
  doc_id :: string
  doc_text :: string
  doc_url :: string
  doc_category :: jsval

datatype upload_line = Preparing nat | Uploaded nat nat | ErrorUploading nat | FinishedUploading nat

record upload_state =
  sent :: "search_document list list"
  indexed :: "search_document list"
  upload_console :: "upload_line list"

definition MAX_BATCH_SIZE :: nat where
  "MAX_BATCH_SIZE = 30000"

definition uploadable :: "content_item option \<Rightarrow> bool" where
  "uploadable it = (case it of
      None \<Rightarrow> False
    | Some i \<Rightarrow> truthy (item_text i) \<and> typeof_string (item_text i))"

definition to_document :: "(nat \<Rightarrow> nat) \<Rightarrow> nat \<Rightarrow> content_item option \<Rightarrow> search_document" where
  "to_document now index it = (let item = the it in
     \<lparr>doc_action = ''upload'',
      doc_id = ''doc-'' @ dec index @ ''-'' @ dec (now index),
      doc_text = take 1000 (str_of (item_text item)),
      doc_url = item_url item,
      doc_category = (if truthy (item_type item) then item_type item else JStr ''unknown'')\<rparr>)"

definition validDocuments :: "(nat \<Rightarrow> nat) \<Rightarrow> content_item option list \<Rightarrow> search_document list" where
  "validDocuments now content =
     map (\<lambda>(index, it). to_document now index it) (enumerate 0 (filter uploadable content))"

text \<open>
  \<^verbatim>\<open>for (let i = 0; i < validDocuments.length; i += MAX_BATCH_SIZE) { ... }\<close>, with the
  \<^verbatim>\<open>try\<close> and \<^verbatim>\<open>catch\<close> inside the loop body.
\<close>

function upload_loop :: "(nat \<Rightarrow> bool) \<Rightarrow> search_document list \<Rightarrow> nat \<Rightarrow> upload_state \<Rightarrow> upload_state" where
  "upload_loop fails docs i st =
     (if i < length docs
      then (let batch = slice i (i + MAX_BATCH_SIZE) docs;
                st' = st\<lparr>sent := sent st @ [batch]\<rparr>
            in upload_loop fails docs (i + MAX_BATCH_SIZE)
                 (if fails (length (sent st))
                  then st'\<lparr>upload_console := upload_console st' @
                             [ErrorUploading (i div MAX_BATCH_SIZE + 1)]\<rparr>
                  else st'\<lparr>indexed := indexed st' @ batch,
                           upload_console := upload_console st' @
                             [Uploaded (i div MAX_BATCH_SIZE + 1) (length batch)]\<rparr>))
      else st)"
  by pat_completeness auto
termination
  by (relation "measure (\<lambda>(fails, docs, i, st). length docs - i)") (auto simp: MAX_BATCH_SIZE_def)

declare upload_loop.simps [simp del]

definition uploadToAzureSearch ::
  "(nat \<Rightarrow> bool) \<Rightarrow> (nat \<Rightarrow> nat) \<Rightarrow> content_item option list \<Rightarrow> upload_state" where
  "uploadToAzureSearch fails now content =
     (let docs = validDocuments now content;
          st = upload_loop fails docs 0
                 \<lparr>sent = [], indexed = [], upload_console = [Preparing (length docs)]\<rparr>
      in st\<lparr>upload_console := upload_console st @ [FinishedUploading (length docs)]\<rparr>)"

definition epoch :: "nat \<Rightarrow> nat" where
  "epoch k = 1700000000000"

lemma upload_loop_sent:
  "sent (upload_loop fails docs i st) = sent st @ batches_from MAX_BATCH_SIZE i docs"
proof (induction fails docs i st rule: upload_loop.induct)
  case (1 fails docs i st)
  show ?case
  proof (cases "i < length docs")
    case True
    then have b: "batches_from MAX_BATCH_SIZE i docs =
        slice i (i + MAX_BATCH_SIZE) docs # batches_from MAX_BATCH_SIZE (i + MAX_BATCH_SIZE) docs"
      by (subst batches_from.simps) (simp add: MAX_BATCH_SIZE_def)
    show ?thesis
      using True 1 by (subst upload_loop.simps) (simp add: b Let_def)
  next
    case False
    then show ?thesis by (subst upload_loop.simps, subst batches_from.simps) simp
  qed
qed

lemma uploadToAzureSearch_sent:
  "sent (uploadToAzureSearch fails now content) = batches_from MAX_BATCH_SIZE 0 (validDocuments now content)"
  by (simp add: uploadToAzureSearch_def Let_def upload_loop_sent)

lemma length_slice: "length (slice i (i + n) xs) \<le> n"
  by (simp add: slice_def)

lemma length_batches_from: "b \<in> set (batches_from n i xs) \<Longrightarrow> length b \<le> n"
proof (induction n i xs rule: batches_from.induct)
  case (1 n i xs)
  show ?case
  proof (cases "0 < n \<and> i < length xs")
    case True
    with "1.prems" have "b = slice i (i + n) xs \<or> b \<in> set (batches_from n (i + n) xs)"
      by (subst (asm) batches_from.simps) simp
    with True "1.IH" length_slice [of i n xs] show ?thesis by blast
  next
    case False
    with "1.prems" show ?thesis by (subst (asm) batches_from.simps) simp
  qed
qed

lemma validDocuments_text: "d \<in> set (validDocuments now content) \<Longrightarrow> length (doc_text d) \<le> 1000"
  by (auto simp: validDocuments_def to_document_def Let_def)

lemma two_batches:
  assumes "length docs = 35000"
  shows "length (batches_from MAX_BATCH_SIZE 0 docs) = 2"
proof -
  have "batches_from MAX_BATCH_SIZE 0 docs =
      slice 0 30000 docs # batches_from 30000 30000 docs"
    using assms by (subst batches_from.simps) (simp add: MAX_BATCH_SIZE_def)
  also have "batches_from 30000 30000 docs = slice 30000 60000 docs # batches_from 30000 60000 docs"
    using assms by (subst batches_from.simps) simp
  also have "batches_from 30000 60000 docs = []"
    using assms by (subst batches_from.simps) simp
  finally show ?thesis by simp
qed

lemma uploadable_iff:
  "uploadable it = (\<exists>i s. it = Some i \<and> item_text i = JStr s \<and> s \<noteq> [])"
proof (cases it)
  case None
  then show ?thesis by (simp add: uploadable_def)
next
  case (Some i)
  then show ?thesis by (cases "item_text i") (simp_all add: uploadable_def)
qed

lemma length_validDocuments:
  "length (validDocuments now content) = length (filter uploadable content)"
  by (simp add: validDocuments_def)

lemma validDocuments_nth:
  assumes "k < length (filter uploadable content)"
  shows "\<exists>i s. filter uploadable content ! k = Some i \<and> item_text i = JStr s \<and> s \<noteq> [] \<and>
     validDocuments now content ! k =
       \<lparr>doc_action = ''upload'',
        doc_id = ''doc-'' @ dec k @ ''-'' @ dec (now k),
        doc_text = take 1000 s,
        doc_url = item_url i,
        doc_category = (if truthy (item_type i) then item_type i else JStr ''unknown'')\<rparr>"
proof -
  from assms have "filter uploadable content ! k \<in> set (filter uploadable content)"
    by (rule nth_mem)
  then have "uploadable (filter uploadable content ! k)" by simp
  then obtain i s where i: "filter uploadable content ! k = Some i" "item_text i = JStr s" "s \<noteq> []"
    unfolding uploadable_iff by blast
  from assms have "validDocuments now content ! k = to_document now k (filter uploadable content ! k)"
    by (simp add: validDocuments_def nth_enumerate_eq)
  with i show ?thesis by (simp add: to_document_def)
qed

text \<open>
  Claim C10. The documents are made of the items whose text is a non-empty string, one
  each and in order, with the item's text cut after 1000 characters. Every batch handed
  to \<^verbatim>\<open>uploadDocuments\<close> has at most 30000 of them; the batches are the documents, in
  order; and 35000 documents are sent in exactly 2 batches, whether or not an upload
  fails.
\<close>

theorem upload_batches_bounded:
  "(\<forall>batch \<in> set (sent (uploadToAzureSearch fails now content)).
      length batch \<le> 30000 \<and> (\<forall>d \<in> set batch. length (doc_text d) \<le> 1000)) \<and>
   concat (sent (uploadToAzureSearch fails now content)) = validDocuments now content \<and>
   length (validDocuments now content) = length (filter uploadable content) \<and>
   (\<forall>it. uploadable it = (\<exists>i s. it = Some i \<and> item_text i = JStr s \<and> s \<noteq> [])) \<and>
   (\<forall>k < length (filter uploadable content).
      \<exists>i s. filter uploadable content ! k = Some i \<and> item_text i = JStr s \<and> s \<noteq> [] \<and>
        validDocuments now content ! k =
          \<lparr>doc_action = ''upload'',
           doc_id = ''doc-'' @ dec k @ ''-'' @ dec (now k),
           doc_text = take 1000 s,
           doc_url = item_url i,
           doc_category = (if truthy (item_type i) then item_type i else JStr ''unknown'')\<rparr>) \<and>
   (length (validDocuments now content) = 35000 \<longrightarrow>
      length (sent (uploadToAzureSearch fails now content)) = 2)"
proof (intro conjI ballI impI allI)
  fix batch assume b: "batch \<in> set (sent (uploadToAzureSearch fails now content))"
  then show "length batch \<le> 30000"
    using length_batches_from [of batch MAX_BATCH_SIZE 0 "validDocuments now content"]
    by (simp add: uploadToAzureSearch_sent MAX_BATCH_SIZE_def)
  fix d assume "d \<in> set batch"
  with b have "d \<in> set (validDocuments now content)"
    using set_batches_from [of batch MAX_BATCH_SIZE 0 "validDocuments now content"]
    by (auto simp: uploadToAzureSearch_sent)
  then show "length (doc_text d) \<le> 1000" by (rule validDocuments_text)
next
  show "concat (sent (uploadToAzureSearch fails now content)) = validDocuments now content"
    by (simp add: uploadToAzureSearch_sent concat_batches_from MAX_BATCH_SIZE_def)
next
  show "length (validDocuments now content) = length (filter uploadable content)"
    by (rule length_validDocuments)
next
  fix it show "uploadable it = (\<exists>i s. it = Some i \<and> item_text i = JStr s \<and> s \<noteq> [])"
    by (rule uploadable_iff)
next
  fix k assume "k < length (filter uploadable content)"
  then show "\<exists>i s. filter uploadable content ! k = Some i \<and> item_text i = JStr s \<and> s \<noteq> [] \<and>
        validDocuments now content ! k =
          \<lparr>doc_action = ''upload'',
           doc_id = ''doc-'' @ dec k @ ''-'' @ dec (now k),
           doc_text = take 1000 s,
           doc_url = item_url i,
           doc_category = (if truthy (item_type i) then item_type i else JStr ''unknown'')\<rparr>"
    by (rule validDocuments_nth)
next
  assume "length (validDocuments now content) = 35000"
  then show "length (sent (uploadToAzureSearch fails now content)) = 2"
    by (simp add: uploadToAzureSearch_sent two_batches)
qed

definition long_item :: content_item where
  "long_item = \<lparr>item_type = JStr [], item_text = JStr (replicate 1200 (CHR ''a'')),
     item_url = ''https://www.madewithnestle.ca/long'', item_html = JUndefined\<rparr>"

lemma uploadable_para: "uploadable (Some para_item)"
  by (simp add: uploadable_def para_item_def)

lemma valid_35000: "length (validDocuments epoch (replicate 35000 (Some para_item))) = 35000"
  by (simp add: validDocuments_def uploadable_para)

lemma uploadable_long:
  "filter uploadable [Some page_record, None, Some long_item] = [Some long_item]"
  by (simp add: uploadable_def page_record_def long_item_def)

lemma dec_0: "dec 0 = ''0''"
  by code_simp

theorem upload_batches_bounded_witness:
  "length (validDocuments epoch (replicate 35000 (Some para_item))) = 35000 \<and>
   length (sent (uploadToAzureSearch first_write_fails epoch (replicate 35000 (Some para_item)))) = 2 \<and>
   concat (sent (uploadToAzureSearch first_write_fails epoch (replicate 35000 (Some para_item)))) =
     validDocuments epoch (replicate 35000 (Some para_item)) \<and>
   concat (sent (uploadToAzureSearch no_failure epoch [Some page_record, None, Some long_item])) =
     [\<lparr>doc_action = ''upload'', doc_id = ''doc-0-'' @ dec (epoch 0),
       doc_text = replicate 1000 (CHR ''a''), doc_url = ''https://www.madewithnestle.ca/long'',
       doc_category = JStr ''unknown''\<rparr>]"
proof -
  note big = upload_batches_bounded [of first_write_fails epoch "replicate 35000 (Some para_item)"]
  note small = upload_batches_bounded [of no_failure epoch "[Some page_record, None, Some long_item]"]
  note c2 = conjunct2
  have 1: "length (sent (uploadToAzureSearch first_write_fails epoch (replicate 35000 (Some para_item)))) = 2"
    by (rule big [THEN c2, THEN c2, THEN c2, THEN c2, THEN c2, THEN mp, OF valid_35000])
  have 2: "concat (sent (uploadToAzureSearch first_write_fails epoch (replicate 35000 (Some para_item)))) =
     validDocuments epoch (replicate 35000 (Some para_item))"
    by (rule big [THEN c2, THEN conjunct1])
  let ?docs = "validDocuments epoch [Some page_record, None, Some long_item]"
  have "length ?docs = length (filter uploadable [Some page_record, None, Some long_item])"
    by (rule small [THEN c2, THEN c2, THEN conjunct1])
  then have l1: "length ?docs = 1" by (simp only: uploadable_long) simp
  have "\<forall>k < length (filter uploadable [Some page_record, None, Some long_item]).
      \<exists>i s. filter uploadable [Some page_record, None, Some long_item] ! k = Some i \<and>
        item_text i = JStr s \<and> s \<noteq> [] \<and>
        ?docs ! k =
          \<lparr>doc_action = ''upload'',
           doc_id = ''doc-'' @ dec k @ ''-'' @ dec (epoch k),
           doc_text = take 1000 s,
           doc_url = item_url i,
           doc_category = (if truthy (item_type i) then item_type i else JStr ''unknown'')\<rparr>"
    by (rule small [THEN c2, THEN c2, THEN c2, THEN c2, THEN conjunct1])
  then obtain i s where w: "[Some long_item] ! 0 = Some i" "item_text i = JStr s"
    "?docs ! 0 =
          \<lparr>doc_action = ''upload'',
           doc_id = ''doc-'' @ dec 0 @ ''-'' @ dec (epoch 0),
           doc_text = take 1000 s,
           doc_url = item_url i,
           doc_category = (if truthy (item_type i) then item_type i else JStr ''unknown'')\<rparr>"
    unfolding uploadable_long by fastforce
  from w(1) have i: "i = long_item" by simp
  from w(2) have s: "s = replicate 1200 (CHR ''a'')" by (simp add: i long_item_def)
  have d0: "?docs ! 0 =
     \<lparr>doc_action = ''upload'', doc_id = ''doc-0-'' @ dec (epoch 0),
       doc_text = replicate 1000 (CHR ''a''), doc_url = ''https://www.madewithnestle.ca/long'',
       doc_category = JStr ''unknown''\<rparr>"
    unfolding w(3) by (simp add: i s long_item_def dec_0)
  from l1 obtain x where x: "?docs = [x]" by (cases ?docs) auto
  with d0 have 3: "?docs =
     [\<lparr>doc_action = ''upload'', doc_id = ''doc-0-'' @ dec (epoch 0),
       doc_text = replicate 1000 (CHR ''a''), doc_url = ''https://www.madewithnestle.ca/long'',
       doc_category = JStr ''unknown''\<rparr>]"
    by simp
  have 4: "concat (sent (uploadToAzureSearch no_failure epoch [Some page_record, None, Some long_item])) = ?docs"
    by (rule small [THEN c2, THEN conjunct1])
  from valid_35000 1 2 4 [unfolded 3] show ?thesis by (intro conjI)
qed

end
